theory Spec2Isabelle
  imports Complex_Main "HOL-Library.Word"
begin

unbundle bit_operations_syntax

section \<open>Multi-core tile: validation of the core counts (MultiCorePE.cc)\<close>

text \<open>
  Source: \<open>src/unnamed/part_000\<close> (MultiCorePE.cc), lines 75 to 81.
  The constructor of \<open>MultiCorePE\<close> reads \<open>num_cores\<close> and \<open>neurons_per_core\<close> as C++
  \<open>int\<close> parameters and calls \<open>output_->fatal\<close>, which aborts the run, when one of them is
  out of range. The two checks are made in this order, so the first failing one is reported.
  The parameters are modelled as mathematical integers; the comparisons are the source's.
\<close>

datatype config_error =
    NumCoresOutOfRange int
  | NeuronsPerCoreOutOfRange int

definition validate_core_params :: "int \<Rightarrow> int \<Rightarrow> config_error option" where
  "validate_core_params num_cores neurons_per_core =
     (if num_cores \<le> 0 \<or> num_cores > 64 then Some (NumCoresOutOfRange num_cores)
      else if neurons_per_core \<le> 0 \<or> neurons_per_core > 1024
        then Some (NeuronsPerCoreOutOfRange neurons_per_core)
      else None)"


section \<open>On-tile ring network (OptimizedInternalRing.h, OptimizedInternalRing.cc)\<close>

text \<open>
  Source: \<open>src/unnamed/part_001\<close> (OptimizedInternalRing.h) for the types and
  \<open>src/SnnDL/OptimizedInternalRing.cc\<close> for the functions.
  Node identifiers and priorities are C++ \<open>int\<close>; they are modelled as mathematical
  integers (every arithmetic step on identifiers inside \<open>[0, num_nodes)\<close> stays inside the
  32-bit range). Cycle stamps and statistics counters are \<open>uint64_t\<close> and are 64-bit words.
  The credit counters are \<open>uint32_t\<close>; they only change under the guards of
  \<open>consumeCredit\<close> and \<open>returnCredit\<close>, so they never wrap and are natural numbers.
  A \<open>std::queue\<close> is a list with the front at the head. The payload of a message is a raw
  pointer that the ring never dereferences; it is an opaque number.
\<close>

datatype RingMessageType = SPIKE_MESSAGE | MEMORY_REQUEST | MEMORY_RESPONSE | CONTROL_MESSAGE

record RingMessage =
  msg_type :: RingMessageType
  src_unit :: int
  dst_unit :: int
  msg_timestamp :: "64 word"
  msg_priority :: int
  payload :: nat

datatype RouteDirection = CLOCKWISE | COUNTER_CLOCKWISE | LOCAL | INVALID

datatype VCState = IDLE | ROUTING | BLOCKED | ACTIVE

record VirtualChannel =
  vc_id :: int
  vc_priority :: int
  vc_state :: VCState
  buffer :: "RingMessage list"
  credits :: nat
  max_credits :: nat
  last_activity_cycle :: "64 word"

definition new_VirtualChannel :: "int \<Rightarrow> int \<Rightarrow> nat \<Rightarrow> VirtualChannel" where
  "new_VirtualChannel i prio max_cred =
     \<lparr>vc_id = i, vc_priority = prio, vc_state = IDLE, buffer = [],
      credits = max_cred, max_credits = max_cred, last_activity_cycle = 0\<rparr>"

definition hasSpace :: "VirtualChannel \<Rightarrow> bool" where
  "hasSpace vc = (credits vc > 0 \<and> length (buffer vc) < max_credits vc)"

definition hasData :: "VirtualChannel \<Rightarrow> bool" where
  "hasData vc = (buffer vc \<noteq> [])"

definition consumeCredit :: "VirtualChannel \<Rightarrow> VirtualChannel" where
  "consumeCredit vc = (if credits vc > 0 then vc\<lparr>credits := credits vc - 1\<rparr> else vc)"

definition returnCredit :: "VirtualChannel \<Rightarrow> VirtualChannel" where
  "returnCredit vc =
     (if credits vc < max_credits vc then vc\<lparr>credits := credits vc + 1\<rparr> else vc)"

record RingNode =
  node_id :: int
  cw_vcs :: "VirtualChannel list"
  ccw_vcs :: "VirtualChannel list"
  local_vcs :: "VirtualChannel list"
  injection_queue :: "RingMessage list"
  ejection_queue :: "RingMessage list"
  messages_forwarded :: "64 word"
  messages_injected :: "64 word"
  messages_ejected :: "64 word"
  node_latency_cycles :: "64 word"

text \<open>\<open>RingNode::initializeVCs\<close>: channel \<open>i\<close> of each direction has id and priority \<open>i\<close>.\<close>

definition initial_vcs :: "int \<Rightarrow> nat \<Rightarrow> VirtualChannel list" where
  "initial_vcs num_vcs_per_direction credits_per_vc =
     map (\<lambda>i. new_VirtualChannel (int i) (int i) credits_per_vc)
       [0 ..< nat num_vcs_per_direction]"

definition new_RingNode :: "int \<Rightarrow> int \<Rightarrow> nat \<Rightarrow> RingNode" where
  "new_RingNode i num_vcs_per_direction credits_per_vc =
     \<lparr>node_id = i,
      cw_vcs = initial_vcs num_vcs_per_direction credits_per_vc,
      ccw_vcs = initial_vcs num_vcs_per_direction credits_per_vc,
      local_vcs = initial_vcs num_vcs_per_direction credits_per_vc,
      injection_queue = [], ejection_queue = [],
      messages_forwarded = 0, messages_injected = 0, messages_ejected = 0,
      node_latency_cycles = 0\<rparr>"

text \<open>The \<open>switch\<close> of \<open>getVCs\<close> and of \<open>selectOutputVC\<close>: no channels for \<open>INVALID\<close>.\<close>

fun getVCs :: "RingNode \<Rightarrow> RouteDirection \<Rightarrow> VirtualChannel list" where
  "getVCs node CLOCKWISE = cw_vcs node"
| "getVCs node COUNTER_CLOCKWISE = ccw_vcs node"
| "getVCs node LOCAL = local_vcs node"
| "getVCs node INVALID = []"

fun setVCs :: "RingNode \<Rightarrow> RouteDirection \<Rightarrow> VirtualChannel list \<Rightarrow> RingNode" where
  "setVCs node CLOCKWISE vcs = node\<lparr>cw_vcs := vcs\<rparr>"
| "setVCs node COUNTER_CLOCKWISE vcs = node\<lparr>ccw_vcs := vcs\<rparr>"
| "setVCs node LOCAL vcs = node\<lparr>local_vcs := vcs\<rparr>"
| "setVCs node INVALID vcs = node"

text \<open>Index of the first element a \<open>for\<close> loop over a vector returns on.\<close>

fun find_first :: "('a \<Rightarrow> bool) \<Rightarrow> 'a list \<Rightarrow> nat option" where
  "find_first P [] = None"
| "find_first P (x # xs) =
     (if P x then Some 0 else map_option Suc (find_first P xs))"

text \<open>
  \<open>RingNode::selectOutputVC\<close> returns a pointer into the vector of the direction; the model
  returns the index of that channel: first a channel of the wanted priority with space, then
  any channel with space.
\<close>

definition selectOutputVC :: "RingNode \<Rightarrow> RouteDirection \<Rightarrow> int \<Rightarrow> nat option" where
  "selectOutputVC node direction prio =
     (if direction = INVALID then None
      else case find_first (\<lambda>vc. vc_priority vc = prio \<and> hasSpace vc) (getVCs node direction) of
             Some i \<Rightarrow> Some i
           | None \<Rightarrow> find_first hasSpace (getVCs node direction))"

definition canAcceptMessage :: "RingNode \<Rightarrow> RouteDirection \<Rightarrow> int \<Rightarrow> bool" where
  "canAcceptMessage node direction prio =
     (if direction = INVALID then False
      else list_ex (\<lambda>vc. vc_priority vc \<le> prio \<and> hasSpace vc) (getVCs node direction))"

record Ring =
  num_nodes :: int
  num_vcs :: int
  credits_per_vc :: nat
  nodes :: "RingNode list"
  total_messages_routed :: "64 word"
  total_latency_cycles :: "64 word"
  total_cycles :: "64 word"
  last_stats_cycle :: "64 word"
  route_lookup_cache :: "64 word \<rightharpoonup> RouteDirection"

text \<open>
  The constructor. Without a logger it builds the ring for every node count (with one it
  aborts for \<open>num_nodes < 2\<close> or \<open>num_vcs < 1\<close>); \<open>initializeTopology\<close> links the nodes only
  when there are at least two, see \<open>next_cw\<close> below.
\<close>

definition new_Ring :: "int \<Rightarrow> int \<Rightarrow> nat \<Rightarrow> Ring" where
  "new_Ring n v c =
     \<lparr>num_nodes = n, num_vcs = v, credits_per_vc = c,
      nodes = map (\<lambda>i. new_RingNode (int i) v c) [0 ..< nat n],
      total_messages_routed = 0, total_latency_cycles = 0, total_cycles = 0,
      last_stats_cycle = 0, route_lookup_cache = Map.empty\<rparr>"

text \<open>\<open>getNode\<close>: the bounds check of the source, \<open>None\<close> for \<open>nullptr\<close>.\<close>

definition getNode :: "Ring \<Rightarrow> int \<Rightarrow> RingNode option" where
  "getNode r i =
     (if i \<ge> 0 \<and> i < num_nodes r then Some (nodes r ! nat i) else None)"

definition putNode :: "Ring \<Rightarrow> int \<Rightarrow> RingNode \<Rightarrow> Ring" where
  "putNode r i node = r\<lparr>nodes := (nodes r)[nat i := node]\<rparr>"

text \<open>
  The neighbour pointers set by \<open>initializeTopology\<close>, as node indices; they stay
  \<open>nullptr\<close> when the ring has fewer than two nodes.
\<close>

definition next_cw :: "Ring \<Rightarrow> int \<Rightarrow> int option" where
  "next_cw r i = (if num_nodes r < 2 then None else Some ((i + 1) mod num_nodes r))"

definition next_ccw :: "Ring \<Rightarrow> int \<Rightarrow> int option" where
  "next_ccw r i =
     (if num_nodes r < 2 then None else Some ((i + num_nodes r - 1) mod num_nodes r))"

definition prev_cw :: "Ring \<Rightarrow> int \<Rightarrow> int option" where
  "prev_cw r i =
     (if num_nodes r < 2 then None else Some ((i + num_nodes r - 1) mod num_nodes r))"

definition calculateHops :: "int \<Rightarrow> int \<Rightarrow> int \<Rightarrow> RouteDirection \<Rightarrow> int" where
  "calculateHops n src dst direction =
     (if src = dst then 0
      else if direction = CLOCKWISE then
        (if dst > src then dst - src else n - src + dst)
      else if direction = COUNTER_CLOCKWISE then
        (if src > dst then src - dst else n - dst + src)
      else 0)"

text \<open>
  \<open>generateRouteCacheKey\<close>: \<open>static_cast<uint64_t>\<close> of an \<open>int\<close> is its value modulo
  \<open>2^64\<close>, which is \<open>word_of_int\<close>.
\<close>

definition generateRouteCacheKey :: "int \<Rightarrow> int \<Rightarrow> 64 word" where
  "generateRouteCacheKey src dst = push_bit 32 (word_of_int src) OR word_of_int dst"

text \<open>\<open>selectRoute\<close> reads and fills the (mutable) lookup cache, so it returns the ring too.\<close>

definition selectRoute :: "Ring \<Rightarrow> int \<Rightarrow> int \<Rightarrow> RouteDirection \<times> Ring" where
  "selectRoute r src dst =
     (if src = dst then (LOCAL, r)
      else case route_lookup_cache r (generateRouteCacheKey src dst) of
             Some d \<Rightarrow> (d, r)
           | None \<Rightarrow>
               (let cw_hops = calculateHops (num_nodes r) src dst CLOCKWISE;
                    ccw_hops = calculateHops (num_nodes r) src dst COUNTER_CLOCKWISE;
                    selected = (if cw_hops \<le> ccw_hops then CLOCKWISE else COUNTER_CLOCKWISE)
                in (selected,
                    r\<lparr>route_lookup_cache :=
                        (route_lookup_cache r)(generateRouteCacheKey src dst \<mapsto> selected)\<rparr>)))"

text \<open>Pushing a message into a channel: the four statements shared by send and forward.\<close>

definition vc_push :: "64 word \<Rightarrow> RingMessage \<Rightarrow> VirtualChannel \<Rightarrow> VirtualChannel" where
  "vc_push now m vc =
     (consumeCredit (vc\<lparr>buffer := buffer vc @ [m]\<rparr>))
       \<lparr>vc_state := ACTIVE, last_activity_cycle := now\<rparr>"

text \<open>Removing the front message of a channel: \<open>buffer.pop(); returnCredit()\<close>.\<close>

definition vc_pop :: "VirtualChannel \<Rightarrow> VirtualChannel" where
  "vc_pop vc = returnCredit (vc\<lparr>buffer := tl (buffer vc)\<rparr>)"

definition sendMessage :: "Ring \<Rightarrow> int \<Rightarrow> int \<Rightarrow> RingMessage \<Rightarrow> int \<Rightarrow> bool \<times> Ring" where
  "sendMessage r src_node dst_node message prio =
     (if src_node < 0 \<or> src_node \<ge> num_nodes r \<or> dst_node < 0 \<or> dst_node \<ge> num_nodes r
      then (False, r)
      else case getNode r src_node of
        None \<Rightarrow> (False, r)
      | Some src \<Rightarrow>
          if src_node = dst_node then
            (True, putNode r src_node
               (src\<lparr>ejection_queue := ejection_queue src @ [message],
                    messages_ejected := messages_ejected src + 1\<rparr>))
          else
            (case selectRoute r src_node dst_node of (route_dir, r1) \<Rightarrow>
               if route_dir = INVALID then (False, r1)
               else case selectOutputVC src route_dir prio of
                 None \<Rightarrow> (False, r1)
               | Some k \<Rightarrow>
                   (let routed_msg = message\<lparr>src_unit := src_node, dst_unit := dst_node,
                                              msg_timestamp := total_cycles r1\<rparr>;
                        vcs = getVCs src route_dir;
                        vcs' = vcs[k := vc_push (total_cycles r1) routed_msg (vcs ! k)];
                        src' = setVCs src route_dir vcs'
                    in (True, putNode r1 src_node
                          (src'\<lparr>messages_injected := messages_injected src' + 1\<rparr>)))))"

definition receiveMessage :: "Ring \<Rightarrow> int \<Rightarrow> (RingMessage option) \<times> Ring" where
  "receiveMessage r i =
     (case getNode r i of
        None \<Rightarrow> (None, r)
      | Some node \<Rightarrow>
          (case ejection_queue node of
             [] \<Rightarrow> (None, r)
           | message # rest \<Rightarrow>
               (let node1 = node\<lparr>ejection_queue := rest\<rparr>;
                    current_cycle = total_cycles r
                in if current_cycle \<ge> msg_timestamp message then
                     (let latency = current_cycle - msg_timestamp message
                      in (Some message,
                          (putNode r i
                             (node1\<lparr>node_latency_cycles := node_latency_cycles node1 + latency\<rparr>))
                            \<lparr>total_latency_cycles := total_latency_cycles r + latency\<rparr>))
                   else (Some message, putNode r i node1))))"

text \<open>
  \<open>forwardMessage\<close>, called on node \<open>i\<close>: the message goes into a channel of the next node in
  the direction, or into the node's own ejection queue for \<open>LOCAL\<close>.
\<close>

definition forwardMessage :: "Ring \<Rightarrow> int \<Rightarrow> RingMessage \<Rightarrow> RouteDirection \<Rightarrow> bool \<times> Ring" where
  "forwardMessage r i message direction =
     (case direction of
        LOCAL \<Rightarrow>
          (let node = nodes r ! nat i
           in (True, putNode r i (node\<lparr>ejection_queue := ejection_queue node @ [message]\<rparr>)))
      | INVALID \<Rightarrow> (False, r)
      | _ \<Rightarrow>
          (case (if direction = CLOCKWISE then next_cw r i else next_ccw r i) of
             None \<Rightarrow> (False, r)
           | Some j \<Rightarrow>
               (let next_node = nodes r ! nat j
                in if \<not> canAcceptMessage next_node direction (msg_priority message)
                   then (False, r)
                   else case selectOutputVC next_node direction (msg_priority message) of
                     None \<Rightarrow> (False, r)
                   | Some k \<Rightarrow>
                       (let vcs = getVCs next_node direction;
                            vcs' = vcs[k := vc_push (total_cycles r) message (vcs ! k)]
                        in (True, putNode r j (setVCs next_node direction vcs'))))))"

text \<open>
  \<open>vcArbitration\<close>: the loop keeps the first channel with data whose priority number is
  strictly below the best so far, starting from \<open>INT_MAX\<close>; \<open>None\<close> is the source's \<open>-1\<close>.
\<close>

definition INT_MAX :: int where
  "INT_MAX = 2147483647"

fun vcArbitration_loop ::
  "VirtualChannel list \<Rightarrow> nat \<Rightarrow> nat option \<Rightarrow> int \<Rightarrow> nat option" where
  "vcArbitration_loop [] i best_vc highest_priority = best_vc"
| "vcArbitration_loop (vc # vcs) i best_vc highest_priority =
     (if hasData vc \<and> vc_priority vc < highest_priority
      then vcArbitration_loop vcs (Suc i) (Some i) (vc_priority vc)
      else vcArbitration_loop vcs (Suc i) best_vc highest_priority)"

definition vcArbitration :: "VirtualChannel list \<Rightarrow> nat option" where
  "vcArbitration vcs = vcArbitration_loop vcs 0 None INT_MAX"

text \<open>
  \<open>processDirectionVCs\<close> on node \<open>i\<close>. The references \<open>vc\<close> and \<open>msg\<close> of the source point
  into node \<open>i\<close>; the model reads the node again after \<open>forwardMessage\<close> changed the ring.
\<close>

definition pop_selected :: "Ring \<Rightarrow> int \<Rightarrow> RouteDirection \<Rightarrow> nat \<Rightarrow> (RingNode \<Rightarrow> RingNode) \<Rightarrow> Ring" where
  "pop_selected r i direction k after =
     (let node = nodes r ! nat i;
          vcs = getVCs node direction
      in putNode r i (after (setVCs node direction (vcs[k := vc_pop (vcs ! k)]))))"

definition processDirectionVCs :: "Ring \<Rightarrow> int \<Rightarrow> RouteDirection \<Rightarrow> Ring" where
  "processDirectionVCs r i direction =
     (let node = nodes r ! nat i;
          vcs = getVCs node direction
      in case vcArbitration vcs of
           None \<Rightarrow> r
         | Some k \<Rightarrow>
             (case buffer (vcs ! k) of
                [] \<Rightarrow> r
              | msg # rest \<Rightarrow>
                  if dst_unit msg = node_id node then
                    pop_selected r i direction k
                      (\<lambda>n. n\<lparr>ejection_queue := ejection_queue n @ [msg],
                              messages_ejected := messages_ejected n + 1\<rparr>)
                  else
                    (case selectRoute r (node_id node) (dst_unit msg) of (next_dir, r1) \<Rightarrow>
                       if next_dir = INVALID then pop_selected r1 i direction k (\<lambda>n. n)
                       else case forwardMessage r1 i msg next_dir of
                              (True, r2) \<Rightarrow>
                                pop_selected r2 i direction k
                                  (\<lambda>n. n\<lparr>messages_forwarded := messages_forwarded n + 1\<rparr>)
                            | (False, r2) \<Rightarrow> r2)))"

text \<open>\<open>processInjectionQueue\<close> is empty in the source.\<close>

definition processNodeRouting :: "Ring \<Rightarrow> int \<Rightarrow> Ring" where
  "processNodeRouting r i =
     (case getNode r i of
        None \<Rightarrow> r
      | Some node \<Rightarrow>
          processDirectionVCs (processDirectionVCs r i CLOCKWISE) i COUNTER_CLOCKWISE)"

definition updateStatistics :: "Ring \<Rightarrow> Ring" where
  "updateStatistics r =
     r\<lparr>total_messages_routed :=
         foldl (\<lambda>total_routed n. total_routed + (messages_forwarded n + messages_ejected n))
           0 (nodes r)\<rparr>"

definition tick :: "Ring \<Rightarrow> 64 word \<Rightarrow> Ring" where
  "tick r current_cycle =
     (let r1 = r\<lparr>total_cycles := current_cycle\<rparr>;
          r2 = foldl (\<lambda>s i. processNodeRouting s (int i)) r1 [0 ..< nat (num_nodes r1)]
      in if current_cycle - last_stats_cycle r2 \<ge> 1000
         then (updateStatistics r2)\<lparr>last_stats_cycle := current_cycle\<rparr>
         else r2)"

text \<open>The three operations a tile performs on its ring, and a run of them.\<close>

datatype ring_op =
    Send int int RingMessage int
  | Tick "64 word"
  | Receive int

fun ring_step :: "Ring \<Rightarrow> ring_op \<Rightarrow> Ring" where
  "ring_step r (Send src_node dst_node message prio) =
     snd (sendMessage r src_node dst_node message prio)"
| "ring_step r (Tick current_cycle) = tick r current_cycle"
| "ring_step r (Receive i) = snd (receiveMessage r i)"

definition ring_run :: "Ring \<Rightarrow> ring_op list \<Rightarrow> Ring" where
  "ring_run r ops = foldl ring_step r ops"

text \<open>Credit conservation of one channel, of a node and of the ring.\<close>

definition vc_conserved :: "VirtualChannel \<Rightarrow> bool" where
  "vc_conserved vc = (length (buffer vc) + credits vc = max_credits vc)"

definition node_conserved :: "RingNode \<Rightarrow> bool" where
  "node_conserved node =
     (list_all vc_conserved (cw_vcs node) \<and> list_all vc_conserved (ccw_vcs node) \<and>
      list_all vc_conserved (local_vcs node))"

definition ring_conserved :: "Ring \<Rightarrow> bool" where
  "ring_conserved r = list_all node_conserved (nodes r)"

text \<open>Invariants of the ring used in the proofs below.\<close>


definition dst_in_range :: "int \<Rightarrow> RingMessage \<Rightarrow> bool" where
  "dst_in_range n m = (0 \<le> dst_unit m \<and> dst_unit m < n)"

definition vc_inv :: "int \<Rightarrow> VirtualChannel \<Rightarrow> bool" where
  "vc_inv n vc = (vc_conserved vc \<and> list_all (dst_in_range n) (buffer vc))"

definition node_inv :: "int \<Rightarrow> RingNode \<Rightarrow> bool" where
  "node_inv n node =
     (list_all (vc_inv n) (cw_vcs node) \<and> list_all (vc_inv n) (ccw_vcs node) \<and>
      list_all (vc_inv n) (local_vcs node))"

definition route_of :: "int \<Rightarrow> int \<Rightarrow> int \<Rightarrow> RouteDirection" where
  "route_of n src dst =
     (if calculateHops n src dst CLOCKWISE \<le> calculateHops n src dst COUNTER_CLOCKWISE
      then CLOCKWISE else COUNTER_CLOCKWISE)"

definition cache_ok :: "int \<Rightarrow> (64 word \<rightharpoonup> RouteDirection) \<Rightarrow> bool" where
  "cache_ok n c =
     (\<forall>s d x. 0 \<le> s \<and> s < n \<and> 0 \<le> d \<and> d < n \<and> c (generateRouteCacheKey s d) = Some x
        \<longrightarrow> x = route_of n s d)"

definition ring_inv :: "int \<Rightarrow> Ring \<Rightarrow> bool" where
  "ring_inv n r =
     (num_nodes r = n \<and> length (nodes r) = nat n \<and>
      (\<forall>i < nat n. node_id (nodes r ! i) = int i) \<and>
      list_all (node_inv n) (nodes r) \<and>
      (n \<le> 2 ^ 31 \<longrightarrow> cache_ok n (route_lookup_cache r)))"


text \<open>A sample message for the concrete runs below.\<close>

definition test_msg :: RingMessage where
  "test_msg = \<lparr>msg_type = SPIKE_MESSAGE, src_unit = -1, dst_unit = -1, msg_timestamp = 0,
      msg_priority = 1, payload = 7\<rparr>"


section \<open>Spike events (SpikeEvent.h)\<close>

text \<open>
  Source: \<open>src/SnnDL/SpikeEvent.h\<close>.
  The fields of \<open>SpikeEvent\<close>. The weight is a C++ \<open>double\<close>; the components below only copy
  it, add it to a membrane potential or compare it, and it is modelled by a real number
  (exact arithmetic in place of IEEE-754 rounding).
\<close>

record SpikeEvent =
  neuron_id :: "32 word"
  timestamp :: "64 word"
  hop_count :: "32 word"
  dest_neuron :: "32 word"
  dest_node :: "32 word"
  weight :: real

definition MAX_HOPS :: "32 word" where
  "MAX_HOPS = 10"

text \<open>The default constructor \<open>SpikeEvent()\<close>, with the member initialiser \<open>hop_count = 0\<close>.\<close>

definition default_SpikeEvent :: SpikeEvent where
  "default_SpikeEvent =
     \<lparr>neuron_id = 0, timestamp = 0, hop_count = 0, dest_neuron = 0, dest_node = 0, weight = 0\<rparr>"

definition incrementHopCount :: "SpikeEvent \<Rightarrow> SpikeEvent" where
  "incrementHopCount ev = ev\<lparr>hop_count := hop_count ev + 1\<rparr>"

definition isExpired :: "SpikeEvent \<Rightarrow> bool" where
  "isExpired ev = (hop_count ev \<ge> MAX_HOPS)"

text \<open>
  \<open>serialize_order\<close> is one function for both directions: the serializer of the simulation
  core, in mode \<open>PACK\<close>, appends each value handed to \<open>SST_SER\<close> to its buffer and, in mode
  \<open>UNPACK\<close>, overwrites the variable with the next value of the buffer. The buffer is a
  list of typed values; reading a value of another type, or from an empty buffer, fails.
  The fields of the base class \<open>SST::Event\<close> are not fields of the spike and are left out.
\<close>

datatype ser_mode = PACK | UNPACK

datatype ser_item = SerU32 "32 word" | SerU64 "64 word" | SerF64 real

record serializer =
  ser_mode :: ser_mode
  ser_buf :: "ser_item list"

definition SST_SER_u32 :: "serializer \<Rightarrow> 32 word \<Rightarrow> (serializer \<times> 32 word) option" where
  "SST_SER_u32 ser x =
     (case ser_mode ser of
        PACK \<Rightarrow> Some (ser\<lparr>ser_buf := ser_buf ser @ [SerU32 x]\<rparr>, x)
      | UNPACK \<Rightarrow>
          (case ser_buf ser of
             SerU32 y # rest \<Rightarrow> Some (ser\<lparr>ser_buf := rest\<rparr>, y)
           | _ \<Rightarrow> None))"

definition SST_SER_u64 :: "serializer \<Rightarrow> 64 word \<Rightarrow> (serializer \<times> 64 word) option" where
  "SST_SER_u64 ser x =
     (case ser_mode ser of
        PACK \<Rightarrow> Some (ser\<lparr>ser_buf := ser_buf ser @ [SerU64 x]\<rparr>, x)
      | UNPACK \<Rightarrow>
          (case ser_buf ser of
             SerU64 y # rest \<Rightarrow> Some (ser\<lparr>ser_buf := rest\<rparr>, y)
           | _ \<Rightarrow> None))"

definition SST_SER_f64 :: "serializer \<Rightarrow> real \<Rightarrow> (serializer \<times> real) option" where
  "SST_SER_f64 ser x =
     (case ser_mode ser of
        PACK \<Rightarrow> Some (ser\<lparr>ser_buf := ser_buf ser @ [SerF64 x]\<rparr>, x)
      | UNPACK \<Rightarrow>
          (case ser_buf ser of
             SerF64 y # rest \<Rightarrow> Some (ser\<lparr>ser_buf := rest\<rparr>, y)
           | _ \<Rightarrow> None))"

text \<open>
  \<open>SpikeEvent::serialize_order\<close>: \<open>neuron_id\<close>, \<open>timestamp\<close>, \<open>dest_neuron\<close>, \<open>dest_node\<close>,
  \<open>weight\<close>, in this order. There is no \<open>SST_SER(hop_count)\<close>.
\<close>

definition serialize_order :: "serializer \<Rightarrow> SpikeEvent \<Rightarrow> (serializer \<times> SpikeEvent) option" where
  "serialize_order ser ev =
     (case SST_SER_u32 ser (neuron_id ev) of None \<Rightarrow> None | Some (s1, a) \<Rightarrow>
      case SST_SER_u64 s1 (timestamp ev) of None \<Rightarrow> None | Some (s2, b) \<Rightarrow>
      case SST_SER_u32 s2 (dest_neuron ev) of None \<Rightarrow> None | Some (s3, c) \<Rightarrow>
      case SST_SER_u32 s3 (dest_node ev) of None \<Rightarrow> None | Some (s4, d) \<Rightarrow>
      case SST_SER_f64 s4 (weight ev) of None \<Rightarrow> None | Some (s5, e) \<Rightarrow>
        Some (s5, ev\<lparr>neuron_id := a, timestamp := b, dest_neuron := c, dest_node := d,
                      weight := e\<rparr>))"

text \<open>
  Serializing packs the event into an empty buffer; deserializing builds the event with
  the default constructor and unpacks the buffer into it.
\<close>

definition serialize :: "SpikeEvent \<Rightarrow> ser_item list option" where
  "serialize ev =
     map_option (\<lambda>(s, _). ser_buf s) (serialize_order \<lparr>ser_mode = PACK, ser_buf = []\<rparr> ev)"

definition deserialize :: "ser_item list \<Rightarrow> SpikeEvent option" where
  "deserialize buf =
     map_option snd (serialize_order \<lparr>ser_mode = UNPACK, ser_buf = buf\<rparr> default_SpikeEvent)"

definition roundtrip :: "SpikeEvent \<Rightarrow> SpikeEvent option" where
  "roundtrip ev = (case serialize ev of None \<Rightarrow> None | Some buf \<Rightarrow> deserialize buf)"

text \<open>A spike that has made three hops.\<close>

definition spike3 :: SpikeEvent where
  "spike3 = \<lparr>neuron_id = 5, timestamp = 100, hop_count = 3, dest_neuron = 9, dest_node = 2, weight = 1/2\<rparr>"


section \<open>Network interface controller (SnnNIC.cc)\<close>

text \<open>
  Source: \<open>src/SnnDL/SnnNIC.cc\<close>.
  The payload and the request built by \<open>createNetworkRequest\<close>. The payload keeps four fields
  of the spike; its weight is a \<open>float\<close>, modelled by a real number like the spike's.
\<close>

record SpikePayload =
  src_neuron_id :: "32 word"
  dest_neuron_id :: "32 word"
  payload_timestamp :: "64 word"
  payload_weight :: real

record Request =
  req_dest :: int
  req_src :: int
  req_vn :: int
  size_in_bits :: nat
  req_head :: bool
  req_tail :: bool
  allow_adaptive :: bool
  req_payload :: SpikePayload

text \<open>
  Modelled from the spec: \<open>sizeof(SpikePayload)\<close> depends on the layout of \<open>SST::Event\<close>, which
  is not part of the repository; the specification gives the packet size as 64 bytes.
\<close>

definition sizeof_SpikePayload :: nat where
  "sizeof_SpikePayload = 64"

text \<open>
  The state of the controller. \<open>direct_link\<close>, \<open>network\<close> and \<open>spike_handler\<close> are pointers
  or function objects of the source: the model keeps whether they are set and, for the
  network, its state \<open>'n\<close>. \<open>output_buf_size\<close> is the configured string, parsed to a number of
  bytes; the controller only hands it to the link control it creates. The last three fields
  record what the controller did to its environment: the spikes given to the local
  handler, the spikes sent on the direct link, and the requests the network accepted.
\<close>

record 'n SnnNIC =
  nic_node_id :: "32 word"
  output_buf_size :: nat
  use_direct_link :: bool
  direct_link :: bool
  network :: "'n option"
  spike_handler :: bool
  spikes_sent_count :: "64 word"
  packets_sent_count :: "64 word"
  stat_spikes_sent :: "64 word"
  stat_packets_sent :: "64 word"
  pending_spikes :: "SpikeEvent list"
  handled :: "SpikeEvent list"
  link_sent :: "SpikeEvent list"
  net_sent :: "Request list"

definition createNetworkRequest :: "'n SnnNIC \<Rightarrow> SpikeEvent \<Rightarrow> 32 word \<Rightarrow> Request" where
  "createNetworkRequest nic spike_event dest =
     \<lparr>req_dest = uint dest, req_src = uint (nic_node_id nic), req_vn = 0,
      size_in_bits = sizeof_SpikePayload * 8,
      req_head = True, req_tail = True, allow_adaptive = True,
      req_payload =
        \<lparr>src_neuron_id = neuron_id spike_event, dest_neuron_id = dest_neuron spike_event,
         payload_timestamp = timestamp spike_event, payload_weight = weight spike_event\<rparr>\<rparr>"

text \<open>
  The network is the \<open>SimpleNetwork\<close> interface of the simulation core, outside the
  repository. Its two calls are parameters of the model: \<open>spaceToSend net vn bits\<close>, and
  \<open>send net req vn\<close>, which answers whether it took the request and gives the next state of
  the network.

  \<open>sendSpike\<close>, with \<open>None\<close> for a null pointer.
\<close>

definition sendSpike ::
  "('n \<Rightarrow> int \<Rightarrow> nat \<Rightarrow> bool) \<Rightarrow> ('n \<Rightarrow> Request \<Rightarrow> int \<Rightarrow> bool \<times> 'n) \<Rightarrow>
   'n SnnNIC \<Rightarrow> SpikeEvent option \<Rightarrow> 'n SnnNIC" where
  "sendSpike spaceToSend send nic spike_event =
     (case spike_event of
        None \<Rightarrow> nic
      | Some ev \<Rightarrow>
          if dest_node ev = nic_node_id nic \<and> neuron_id ev = dest_neuron ev then
            (if spike_handler nic then nic\<lparr>handled := handled nic @ [ev]\<rparr> else nic)
          else if use_direct_link nic \<and> direct_link nic then
            nic\<lparr>link_sent := link_sent nic @ [ev],
                spikes_sent_count := spikes_sent_count nic + 1,
                packets_sent_count := packets_sent_count nic + 1,
                stat_spikes_sent := stat_spikes_sent nic + 1,
                stat_packets_sent := stat_packets_sent nic + 1\<rparr>
          else if \<not> use_direct_link nic \<and> network nic \<noteq> None then
            (let req = createNetworkRequest nic ev (dest_node ev);
                 net = the (network nic)
             in if spaceToSend net 0 (size_in_bits req) then
                  (case send net req 0 of
                     (True, net') \<Rightarrow>
                       nic\<lparr>network := Some net', net_sent := net_sent nic @ [req],
                           spikes_sent_count := spikes_sent_count nic + 1,
                           packets_sent_count := packets_sent_count nic + 1,
                           stat_spikes_sent := stat_spikes_sent nic + 1,
                           stat_packets_sent := stat_packets_sent nic + 1\<rparr>
                   | (False, net') \<Rightarrow>
                       nic\<lparr>network := Some net',
                           pending_spikes := pending_spikes nic @ [ev]\<rparr>)
                else nic\<lparr>pending_spikes := pending_spikes nic @ [ev]\<rparr>)
          else nic)"

text \<open>
  \<open>spaceAvailable\<close>, the handler of the network's notification. Its loop takes the spike at
  the head of the queue; when the network refuses it, the spike goes to the back of the
  queue and the loop stops. Only the statistics objects are updated here.
\<close>

function spaceAvailable_loop ::
  "('n \<Rightarrow> int \<Rightarrow> nat \<Rightarrow> bool) \<Rightarrow> ('n \<Rightarrow> Request \<Rightarrow> int \<Rightarrow> bool \<times> 'n) \<Rightarrow>
   'n SnnNIC \<Rightarrow> int \<Rightarrow> 'n SnnNIC" where
  "spaceAvailable_loop spaceToSend send nic vn =
     (case network nic of
        None \<Rightarrow> nic
      | Some net \<Rightarrow>
         (case pending_spikes nic of
            [] \<Rightarrow> nic
          | spike # rest \<Rightarrow>
              if \<not> spaceToSend net vn 1 then nic
              else
                (let req = createNetworkRequest nic spike (dest_node spike)
                 in if spaceToSend net vn (size_in_bits req) then
                      (case send net req vn of
                         (True, net') \<Rightarrow>
                           spaceAvailable_loop spaceToSend send
                             (nic\<lparr>network := Some net', pending_spikes := rest,
                                  net_sent := net_sent nic @ [req],
                                  stat_spikes_sent := stat_spikes_sent nic + 1,
                                  stat_packets_sent := stat_packets_sent nic + 1\<rparr>) vn
                       | (False, net') \<Rightarrow>
                           nic\<lparr>network := Some net', pending_spikes := rest @ [spike]\<rparr>)
                    else nic\<lparr>pending_spikes := rest @ [spike]\<rparr>)))"
  by pat_completeness auto
termination
  by (relation "measure (\<lambda>(spaceToSend, send, nic, vn). length (pending_spikes nic))") auto

declare spaceAvailable_loop.simps [simp del]

text \<open>
  The handler returns at once when there is no network; the loop above never removes the
  network, so its own test of the pointer always succeeds.
\<close>

definition spaceAvailable ::
  "('n \<Rightarrow> int \<Rightarrow> nat \<Rightarrow> bool) \<Rightarrow> ('n \<Rightarrow> Request \<Rightarrow> int \<Rightarrow> bool \<times> 'n) \<Rightarrow>
   'n SnnNIC \<Rightarrow> int \<Rightarrow> 'n SnnNIC" where
  "spaceAvailable spaceToSend send nic vn =
     (case network nic of
        None \<Rightarrow> nic
      | Some net \<Rightarrow> spaceAvailable_loop spaceToSend send nic vn)"

text \<open>A network that never has space, and a controller in network mode, for the runs below.\<close>

definition full_spaceToSend :: "unit \<Rightarrow> int \<Rightarrow> nat \<Rightarrow> bool" where
  "full_spaceToSend net vn bits = False"

definition full_send :: "unit \<Rightarrow> Request \<Rightarrow> int \<Rightarrow> bool \<times> unit" where
  "full_send net req vn = (False, net)"

text \<open>A network that always takes the request.\<close>

definition open_spaceToSend :: "unit \<Rightarrow> int \<Rightarrow> nat \<Rightarrow> bool" where
  "open_spaceToSend net vn bits = True"

definition open_send :: "unit \<Rightarrow> Request \<Rightarrow> int \<Rightarrow> bool \<times> unit" where
  "open_send net req vn = (True, net)"

text \<open>A network with room for a single bit but not for a packet.\<close>

definition tight_spaceToSend :: "unit \<Rightarrow> int \<Rightarrow> nat \<Rightarrow> bool" where
  "tight_spaceToSend net vn bits = (bits < 64)"

definition network_nic :: "unit SnnNIC" where
  "network_nic =
     \<lparr>nic_node_id = 0, output_buf_size = 1024, use_direct_link = False, direct_link = False,
      network = Some (), spike_handler = True,
      spikes_sent_count = 0, packets_sent_count = 0, stat_spikes_sent = 0,
      stat_packets_sent = 0, pending_spikes = [], handled = [], link_sent = [],
      net_sent = []\<rparr>"

definition direct_nic :: "unit SnnNIC" where
  "direct_nic = network_nic\<lparr>use_direct_link := True, direct_link := True, network := None\<rparr>"

definition remote_spike :: SpikeEvent where
  "remote_spike =
     \<lparr>neuron_id = 5, timestamp = 100, hop_count = 3, dest_neuron = 9, dest_node = 2,
      weight = 1 / 2\<rparr>"

definition self_spike :: SpikeEvent where
  "self_spike = remote_spike\<lparr>neuron_id := 9, dest_node := 0\<rparr>"

definition same_node_spike :: SpikeEvent where
  "same_node_spike = remote_spike\<lparr>dest_node := 0\<rparr>"

section \<open>Spike trace loader (SpikeSource.cc, SpikeSource.h)\<close>

text \<open>
  Source: \<open>src/unnamed/part_004\<close> (SpikeSource.cc); the declarations of \<open>SpikeData\<close> and of
  the fields are in \<open>src/SnnDL/configure.m4\<close>, which holds the text of SpikeSource.h.
\<close>

record SpikeData =
  sd_neuron_id :: "32 word"
  sd_timestamp :: "64 word"

text \<open>
  The parameters and the state of the loader. \<open>time_scale\<close> is a \<open>float\<close>, modelled by a real
  number. \<open>spike_queue\<close> is a priority queue ordered by time stamp; the model keeps its
  content as the list of the events in the order they were pushed.
\<close>

record SpikeSource =
  time_scale :: real
  neuron_offset :: "32 word"
  max_events :: "32 word"
  spike_queue :: "SpikeData list"
  events_loaded_count :: "64 word"

text \<open>
  \<open>convertToSimTime\<close>, with exact arithmetic for the \<open>float\<close> product and the truncating
  cast to \<open>uint64_t\<close> (the cast is defined for products inside the 64-bit range).
\<close>

definition convertToSimTime :: "SpikeSource \<Rightarrow> 64 word \<Rightarrow> 64 word" where
  "convertToSimTime src data_timestamp =
     word_of_int (\<lfloor>real (unat data_timestamp) * time_scale src\<rfloor>)"

text \<open>
  The neuron filter of \<open>loadTextFormat\<close>; \<open>start_neuron + neurons_per_node\<close> is a 32-bit sum.
\<close>

definition should_load_event :: "SpikeSource \<Rightarrow> 32 word \<Rightarrow> bool" where
  "should_load_event src nid =
     (if neuron_offset src = 0 then True
      else (let neurons_per_node = 2;
                start_neuron = neuron_offset src;
                end_neuron = start_neuron + neurons_per_node
            in nid \<ge> start_neuron \<and> nid < end_neuron))"

text \<open>
  The loop of \<open>loadTextFormat\<close> over the lines that \<open>std::getline\<close> yields. The extraction
  \<open>iss >> neuron_id >> timestamp\<close> belongs to the C++ library and is the parameter
  \<open>extraction\<close>: \<open>None\<close> when the stream fails, else the two numbers read. \<open>events_count\<close> is
  the 32-bit counter of the source.
\<close>

fun loadText_loop ::
  "(string \<Rightarrow> (32 word \<times> 64 word) option) \<Rightarrow> SpikeSource \<Rightarrow> 32 word \<Rightarrow> string list \<Rightarrow>
   SpikeSource" where
  "loadText_loop extraction src events_count [] = src"
| "loadText_loop extraction src events_count (line # rest) =
     (if \<not> (max_events src = 0 \<or> events_count < max_events src) then src
      else if line = [] \<or> hd line = CHR ''#'' then loadText_loop extraction src events_count rest
      else case extraction line of
        None \<Rightarrow> loadText_loop extraction src events_count rest
      | Some (nid, ts) \<Rightarrow>
          if should_load_event src nid then
            (let adjusted_timestamp = ts
             in loadText_loop extraction
                  (src\<lparr>spike_queue :=
                         spike_queue src @
                           [\<lparr>sd_neuron_id = nid, sd_timestamp = adjusted_timestamp\<rparr>],
                       events_loaded_count := events_loaded_count src + 1\<rparr>)
                  (events_count + 1) rest)
          else loadText_loop extraction src events_count rest)"

text \<open>\<open>loadTextFormat\<close>: \<open>None\<close> for a file that cannot be opened.\<close>

definition loadTextFormat ::
  "(string \<Rightarrow> (32 word \<times> 64 word) option) \<Rightarrow> SpikeSource \<Rightarrow> string list option \<Rightarrow>
   bool \<times> SpikeSource" where
  "loadTextFormat extraction src file =
     (case file of
        None \<Rightarrow> (False, src)
      | Some lines \<Rightarrow> (True, loadText_loop extraction src 0 lines))"

text \<open>
  An extraction for the concrete runs below: it reads two unsigned decimal numbers
  separated by blanks, and fails on anything else or on a number that does not fit. On
  such lines it is what the stream extraction of the source does.
\<close>

definition is_digit :: "char \<Rightarrow> bool" where
  "is_digit c = (48 \<le> (of_char c :: nat) \<and> (of_char c :: nat) \<le> 57)"

definition read_unsigned :: "nat \<Rightarrow> string \<Rightarrow> (nat \<times> string) option" where
  "read_unsigned bits s =
     (let s1 = dropWhile (\<lambda>c. c = CHR '' '') s;
          ds = takeWhile is_digit s1;
          v = foldl (\<lambda>a c. 10 * a + ((of_char c :: nat) - 48)) 0 ds
      in if ds = [] \<or> v \<ge> 2 ^ bits then None else Some (v, dropWhile is_digit s1))"

definition decimal_extract :: "string \<Rightarrow> (32 word \<times> 64 word) option" where
  "decimal_extract line =
     (case read_unsigned 32 line of
        None \<Rightarrow> None
      | Some (a, rest) \<Rightarrow>
          (case read_unsigned 64 rest of
             None \<Rightarrow> None
           | Some (b, _) \<Rightarrow> Some (of_nat a, of_nat b)))"

text \<open>The event a line contributes, if any: the cases of the loop body, without the limit.\<close>

definition line_event ::
  "(string \<Rightarrow> (32 word \<times> 64 word) option) \<Rightarrow> SpikeSource \<Rightarrow> string \<Rightarrow> SpikeData option" where
  "line_event extraction src line =
     (if line = [] \<or> hd line = CHR ''#'' then None
      else case extraction line of
        None \<Rightarrow> None
      | Some (nid, ts) \<Rightarrow>
          if should_load_event src nid
          then Some \<lparr>sd_neuron_id = nid, sd_timestamp = ts\<rparr> else None)"

definition offset_source :: SpikeSource where
  "offset_source =
     \<lparr>time_scale = 2, neuron_offset = 3, max_events = 0, spike_queue = [],
      events_loaded_count = 0\<rparr>"

text \<open>The events the loop stores for a list of lines: the limit applied to the line events.\<close>

definition stored_events ::
  "(string \<Rightarrow> (32 word \<times> 64 word) option) \<Rightarrow> SpikeSource \<Rightarrow> string list \<Rightarrow> SpikeData list" where
  "stored_events extraction src lines =
     (if max_events src = 0 then List.map_filter (line_event extraction src) lines
      else take (unat (max_events src)) (List.map_filter (line_event extraction src) lines))"

definition sample_trace :: "string list" where
  "sample_trace = [''# trace'', ''3 100'', ''7 5'', ''bad line'', [], ''4 9'', ''3 7'']"

section \<open>Neuron dynamics (SnnPE.cc, SnnPESubComponent.cc)\<close>

text \<open>
  Source: \<open>src/SnnDL/SnnPE.cc\<close> with \<open>src/unnamed/part_007\<close> (SnnPE.h), and
  \<open>src/SnnDL/SnnPESubComponent.cc\<close>.
  Membrane potentials, thresholds and weights are \<open>float\<close>; they are real numbers here, with
  exact arithmetic in place of IEEE-754 rounding. The laws below only compare potentials,
  assign them and apply the leak formula. The statistics counters are \<open>uint64_t\<close> and
  are natural numbers (no run performs \<open>2^64\<close> firings). \<open>last_spike_time\<close> is a field of
  the neuron state of the sub-component only.
\<close>

record NeuronState =
  v_mem :: real
  refractory_timer :: "32 word"
  last_spike_time :: "64 word"

definition new_NeuronState :: "real \<Rightarrow> NeuronState" where
  "new_NeuronState rest = \<lparr>v_mem = rest, refractory_timer = 0, last_spike_time = 0\<rparr>"

subsection \<open>The single-core component \<open>SnnPE\<close>\<close>

text \<open>
  The last two fields record the spikes handed to the network interface and to the output
  link. \<open>snn_interface\<close> and \<open>spike_output_link\<close> tell whether the pointers are set.
\<close>

record SnnPE =
  num_neurons :: "32 word"
  neuron_id_start :: "32 word"
  v_thresh :: real
  v_reset :: real
  v_rest :: real
  tau_mem :: real
  t_ref :: "32 word"
  leak_factor :: real
  neurons :: "NeuronState list"
  csr_weights :: "real list"
  csr_col_indices :: "32 word list"
  csr_row_ptr :: "64 word list"
  spikes_generated_count :: nat
  neurons_fired_count :: nat
  synaptic_ops_count :: nat
  use_interface_mode :: bool
  snn_interface :: bool
  spike_output_link :: bool
  interface_sent :: "SpikeEvent list"
  link_out :: "SpikeEvent list"

text \<open>
  \<open>setup\<close> computes the leak factor with \<open>dt_ms = 1\<close> (the constructor does the same). For
  \<open>tau_mem = 0\<close> the \<open>float\<close> quotient is infinite, unlike the real one; the time constant
  is positive in every configuration.
\<close>

definition setup_leak_factor :: "SnnPE \<Rightarrow> SnnPE" where
  "setup_leak_factor pe = (let dt_ms = 1 in pe\<lparr>leak_factor := exp (- dt_ms / tau_mem pe)\<rparr>)"

definition update_neuron :: "SnnPE \<Rightarrow> nat \<Rightarrow> (NeuronState \<Rightarrow> NeuronState) \<Rightarrow> SnnPE" where
  "update_neuron pe i f = pe\<lparr>neurons := (neurons pe)[i := f (neurons pe ! i)]\<rparr>"

definition applyLeak :: "SnnPE \<Rightarrow> nat \<Rightarrow> SnnPE" where
  "applyLeak pe neuron_idx =
     update_neuron pe neuron_idx
       (\<lambda>n. n\<lparr>v_mem := v_rest pe + (v_mem n - v_rest pe) * leak_factor pe\<rparr>)"

text \<open>The loop of \<open>SnnPE::clockTick\<close> over the neurons; the rest of the tick sends test traffic.\<close>

definition clockTick_neuron :: "SnnPE \<Rightarrow> nat \<Rightarrow> SnnPE" where
  "clockTick_neuron pe i =
     (if refractory_timer (neurons pe ! i) > 0
      then update_neuron pe i (\<lambda>n. n\<lparr>refractory_timer := refractory_timer n - 1\<rparr>)
      else applyLeak pe i)"

definition clockTick_neurons :: "SnnPE \<Rightarrow> SnnPE" where
  "clockTick_neurons pe = foldl clockTick_neuron pe [0 ..< unat (num_neurons pe)]"

text \<open>
  \<open>SnnPE::checkAndFireSpike\<close>. The statements that fire the neuron: reset, refractory
  timer, counters.
\<close>

definition fire_reset :: "SnnPE \<Rightarrow> 32 word \<Rightarrow> SnnPE" where
  "fire_reset pe neuron_idx =
     (update_neuron pe (unat neuron_idx)
        (\<lambda>n. n\<lparr>v_mem := v_reset pe, refractory_timer := t_ref pe\<rparr>))
       \<lparr>spikes_generated_count := spikes_generated_count pe + 1,
        neurons_fired_count := neurons_fired_count pe + 1\<rparr>"

text \<open>
  A connection to a neuron of another core: the spike is built by the constructor
  \<open>SpikeEvent(id)\<close> and three setters, and goes to the interface, else to the link, else
  nowhere.
\<close>

definition send_cross_core :: "SnnPE \<Rightarrow> 32 word \<Rightarrow> 32 word \<Rightarrow> real \<Rightarrow> SnnPE" where
  "send_cross_core pe neuron_idx global_target_neuron w =
     (let dest_node_id = global_target_neuron div num_neurons pe;
          local_target_neuron = global_target_neuron mod num_neurons pe;
          new_spike = default_SpikeEvent
            \<lparr>neuron_id := neuron_id_start pe + neuron_idx, dest_node := dest_node_id,
             dest_neuron := local_target_neuron, weight := w\<rparr>
      in if use_interface_mode pe \<and> snn_interface pe
           then pe\<lparr>interface_sent := interface_sent pe @ [new_spike]\<rparr>
         else if spike_output_link pe then pe\<lparr>link_out := link_out pe @ [new_spike]\<rparr>
         else pe)"

text \<open>
  The loop over the connections \<open>i = row_start, ..., row_end - 1\<close> of the firing neuron.
  \<open>recurse\<close> is the nested call of \<open>checkAndFireSpike\<close>. An empty remainder of the list is
  the end of the loop, and so is each \<open>break\<close>.
\<close>

fun row_loop :: "(SnnPE \<Rightarrow> 32 word \<Rightarrow> SnnPE) \<Rightarrow> 32 word \<Rightarrow> SnnPE \<Rightarrow> nat list \<Rightarrow> SnnPE" where
  "row_loop recurse neuron_idx pe [] = pe"
| "row_loop recurse neuron_idx pe (i # rest) =
     (if i \<ge> length (csr_col_indices pe) \<or> i \<ge> length (csr_weights pe) then pe
      else
        (let global_target_neuron = csr_col_indices pe ! i;
             w = csr_weights pe ! i
         in if global_target_neuron > 1000 then pe
            else if w = 0 then row_loop recurse neuron_idx pe rest
            else if global_target_neuron \<ge> neuron_id_start pe \<and>
                    global_target_neuron < neuron_id_start pe + num_neurons pe then
              (let true_local_target = global_target_neuron - neuron_id_start pe
               in if refractory_timer (neurons pe ! unat true_local_target) = 0 then
                    row_loop recurse neuron_idx
                      (recurse
                         ((update_neuron pe (unat true_local_target)
                             (\<lambda>n. n\<lparr>v_mem := v_mem n + w\<rparr>))
                            \<lparr>synaptic_ops_count := synaptic_ops_count pe + 1\<rparr>)
                         true_local_target)
                      rest
                  else row_loop recurse neuron_idx pe rest)
            else row_loop recurse neuron_idx
                   (send_cross_core pe neuron_idx global_target_neuron w) rest))"

text \<open>
  What follows the firing statements: the two bounds checks on the CSR arrays, then the
  loop. \<open>csr_row_ptr.size() - 1\<close> is evaluated in \<open>size_t\<close>, a 64-bit word.
\<close>

definition propagate :: "(SnnPE \<Rightarrow> 32 word \<Rightarrow> SnnPE) \<Rightarrow> SnnPE \<Rightarrow> 32 word \<Rightarrow> SnnPE" where
  "propagate recurse pe neuron_idx =
     (if (ucast neuron_idx :: 64 word) \<ge> of_nat (length (csr_row_ptr pe)) - 1 then pe
      else
        (let row_start = csr_row_ptr pe ! unat neuron_idx;
             row_end = csr_row_ptr pe ! (unat neuron_idx + 1)
         in if unat row_end > length (csr_col_indices pe) \<or>
               unat row_end > length (csr_weights pe) then pe
            else row_loop recurse neuron_idx pe [unat row_start ..< unat row_end]))"

definition MAX_RECURSION_DEPTH :: nat where
  "MAX_RECURSION_DEPTH = 10"

text \<open>
  The function proper, by the number of nested calls still allowed, that is
  \<open>MAX_RECURSION_DEPTH - recursion_depth\<close>: with none left the call returns at once; else it
  fires a neuron at or above the threshold, the nested calls having one level less. The
  source does not test the refractory timer here.
\<close>

primrec checkAndFireSpike_left :: "nat \<Rightarrow> SnnPE \<Rightarrow> 32 word \<Rightarrow> SnnPE" where
  "checkAndFireSpike_left 0 pe neuron_idx = pe"
| "checkAndFireSpike_left (Suc k) pe neuron_idx =
     (if v_mem (neurons pe ! unat neuron_idx) \<ge> v_thresh pe
      then propagate (checkAndFireSpike_left k) (fire_reset pe neuron_idx) neuron_idx
      else pe)"

text \<open>
  A call at a given value of the static counter \<open>recursion_depth\<close>, and a call from outside
  the function, where the counter is 0 (every path that increments it decrements it).
\<close>

definition checkAndFireSpike_depth :: "nat \<Rightarrow> SnnPE \<Rightarrow> 32 word \<Rightarrow> SnnPE" where
  "checkAndFireSpike_depth recursion_depth pe neuron_idx =
     checkAndFireSpike_left (MAX_RECURSION_DEPTH - recursion_depth) pe neuron_idx"

definition checkAndFireSpike :: "SnnPE \<Rightarrow> 32 word \<Rightarrow> SnnPE" where
  "checkAndFireSpike pe neuron_idx = checkAndFireSpike_depth 0 pe neuron_idx"

text \<open>
  \<open>SnnPE::processLocalSpike\<close>, the handler of a spike that the embedded router delivers: it
  adds the weight and calls \<open>checkAndFireSpike\<close>, without a test of the refractory timer.
\<close>

definition processLocalSpike :: "SnnPE \<Rightarrow> SpikeEvent \<Rightarrow> SnnPE" where
  "processLocalSpike pe spike_event =
     (let target_neuron = dest_neuron spike_event
      in if target_neuron < num_neurons pe then
           checkAndFireSpike
             ((update_neuron pe (unat target_neuron)
                 (\<lambda>n. n\<lparr>v_mem := v_mem n + weight spike_event\<rparr>))
                \<lparr>synaptic_ops_count := synaptic_ops_count pe + 1\<rparr>)
             target_neuron
         else pe)"

subsection \<open>The core of the multi-core tile, \<open>SnnPESubComponent\<close>\<close>

record Core =
  core_num_neurons :: "32 word"
  core_node_id :: "32 word"
  core_global_neuron_base :: "64 word"
  core_v_thresh :: real
  core_v_reset :: real
  core_v_rest :: real
  core_tau_mem :: real
  core_t_ref :: "32 word"
  neuron_states :: "NeuronState list"
  core_total_cycles :: "64 word"
  count_neurons_fired :: nat
  count_spikes_generated :: nat
  parent :: bool
  parent_sent :: "SpikeEvent list"

definition update_state :: "Core \<Rightarrow> nat \<Rightarrow> (NeuronState \<Rightarrow> NeuronState) \<Rightarrow> Core" where
  "update_state c i f = c\<lparr>neuron_states := (neuron_states c)[i := f (neuron_states c ! i)]\<rparr>"

definition core_applyLeak :: "Core \<Rightarrow> 32 word \<Rightarrow> Core" where
  "core_applyLeak c neuron_idx =
     (if neuron_idx \<ge> core_num_neurons c then c
      else if v_mem (neuron_states c ! unat neuron_idx) > core_v_rest c then
        update_state c (unat neuron_idx)
          (\<lambda>n. n\<lparr>v_mem := core_v_rest c + (v_mem n - core_v_rest c) * exp (- 1 / core_tau_mem c)\<rparr>)
      else c)"

definition updateNeuronStates_step :: "Core \<Rightarrow> nat \<Rightarrow> Core" where
  "updateNeuronStates_step c i =
     (if refractory_timer (neuron_states c ! i) > 0
      then update_state c i (\<lambda>n. n\<lparr>refractory_timer := refractory_timer n - 1\<rparr>)
      else core_applyLeak c (of_nat i))"

definition updateNeuronStates :: "Core \<Rightarrow> Core" where
  "updateNeuronStates c = foldl updateNeuronStates_step c [0 ..< unat (core_num_neurons c)]"

text \<open>
  The fixed connection pattern of \<open>SnnPESubComponent::checkAndFireSpike\<close>: the target
  neuron and node of the output spike by the node of the core, \<open>None\<close> for the nodes of the
  output layer, which send nothing. All arithmetic is 32-bit.
\<close>

definition fan_out :: "32 word \<Rightarrow> 32 word \<Rightarrow> (32 word \<times> 32 word) option" where
  "fan_out node neuron_idx =
     (if node \<le> 3 then
        (let target_hidden_base = (if node < 2 then 4 else 8);
             target_hidden_node = target_hidden_base + (node mod 2) * 2 + (neuron_idx mod 2)
         in Some (8 + (target_hidden_node - 4) * 4 + neuron_idx, target_hidden_node))
      else if node \<ge> 4 \<and> node \<le> 11 then
        (let target_output_node = 12 + ((node - 4) div 2)
         in Some (40 + (target_output_node - 12) * 2 + (neuron_idx mod 2), target_output_node))
      else None)"

definition core_checkAndFireSpike :: "Core \<Rightarrow> 32 word \<Rightarrow> Core" where
  "core_checkAndFireSpike c neuron_idx =
     (if neuron_idx \<ge> core_num_neurons c then c
      else if v_mem (neuron_states c ! unat neuron_idx) \<ge> core_v_thresh c \<and>
              refractory_timer (neuron_states c ! unat neuron_idx) = 0 then
        (let c1 = (update_state c (unat neuron_idx)
                     (\<lambda>n. n\<lparr>v_mem := core_v_reset c, refractory_timer := core_t_ref c,
                            last_spike_time := core_total_cycles c\<rparr>))
                    \<lparr>count_neurons_fired := count_neurons_fired c + 1,
                     count_spikes_generated := count_spikes_generated c + 1\<rparr>;
             source_global = (ucast (core_global_neuron_base c + ucast neuron_idx) :: 32 word)
         in case fan_out (core_node_id c) neuron_idx of
              None \<Rightarrow> c1
            | Some (target_neuron, target_node) \<Rightarrow>
                (let output_spike =
                       \<lparr>neuron_id = source_global, timestamp = core_total_cycles c,
                        hop_count = 0, dest_neuron = target_neuron, dest_node = target_node,
                        weight = 0\<rparr>
                 in if parent c then c1\<lparr>parent_sent := parent_sent c1 @ [output_spike]\<rparr>
                    else c1))
      else c)"

text \<open>What one tick does to one neuron, in each component; used to state the loops as maps.\<close>

definition tick_neuron :: "SnnPE \<Rightarrow> NeuronState \<Rightarrow> NeuronState" where
  "tick_neuron pe n =
     (if refractory_timer n > 0 then n\<lparr>refractory_timer := refractory_timer n - 1\<rparr>
      else n\<lparr>v_mem := v_rest pe + (v_mem n - v_rest pe) * leak_factor pe\<rparr>)"

definition core_tick_neuron :: "Core \<Rightarrow> NeuronState \<Rightarrow> NeuronState" where
  "core_tick_neuron c n =
     (if refractory_timer n > 0 then n\<lparr>refractory_timer := refractory_timer n - 1\<rparr>
      else if v_mem n > core_v_rest c
        then n\<lparr>v_mem := core_v_rest c + (v_mem n - core_v_rest c) * exp (- 1 / core_tau_mem c)\<rparr>
      else n)"

text \<open>Sample components: default parameters, two neurons each.\<close>

definition sample_pe :: SnnPE where
  "sample_pe =
     \<lparr>num_neurons = 2, neuron_id_start = 0, v_thresh = 1, v_reset = 0, v_rest = 0,
      tau_mem = 20, t_ref = 2, leak_factor = 1,
      neurons = [\<lparr>v_mem = 1 / 2, refractory_timer = 0, last_spike_time = 0\<rparr>,
                 \<lparr>v_mem = - 1, refractory_timer = 2, last_spike_time = 0\<rparr>],
      csr_weights = [], csr_col_indices = [], csr_row_ptr = [0, 0, 0],
      spikes_generated_count = 0, neurons_fired_count = 0, synaptic_ops_count = 0,
      use_interface_mode = False, snn_interface = False, spike_output_link = False,
      interface_sent = [], link_out = []\<rparr>"

definition sample_core :: Core where
  "sample_core =
     \<lparr>core_num_neurons = 3, core_node_id = 0, core_global_neuron_base = 0,
      core_v_thresh = 1, core_v_reset = 0, core_v_rest = 0, core_tau_mem = 20,
      core_t_ref = 2,
      neuron_states = [\<lparr>v_mem = 1 / 2, refractory_timer = 0, last_spike_time = 0\<rparr>,
                       \<lparr>v_mem = - 1, refractory_timer = 0, last_spike_time = 0\<rparr>,
                       \<lparr>v_mem = 3, refractory_timer = 2, last_spike_time = 0\<rparr>],
      core_total_cycles = 7, count_neurons_fired = 0, count_spikes_generated = 0,
      parent = True, parent_sent = []\<rparr>"

text \<open>
  A chain of eleven neurons in one \<open>SnnPE\<close>: neuron \<open>i\<close> drives neuron \<open>i + 1\<close> with weight 1,
  the threshold is 1, and neuron 0 stands at the threshold.
\<close>

definition resting :: NeuronState where
  "resting = \<lparr>v_mem = 0, refractory_timer = 0, last_spike_time = 0\<rparr>"

definition chain_pe :: SnnPE where
  "chain_pe =
     \<lparr>num_neurons = 11, neuron_id_start = 0, v_thresh = 1, v_reset = 0, v_rest = 0,
      tau_mem = 20, t_ref = 2, leak_factor = 1,
      neurons = [\<lparr>v_mem = 1, refractory_timer = 0, last_spike_time = 0\<rparr>,
                 resting, resting, resting, resting, resting, resting, resting, resting,
                 resting, resting],
      csr_weights = [1, 1, 1, 1, 1, 1, 1, 1, 1, 1],
      csr_col_indices = [1, 2, 3, 4, 5, 6, 7, 8, 9, 10],
      csr_row_ptr = [0, 1, 2, 3, 4, 5, 6, 7, 8, 9, 10, 10],
      spikes_generated_count = 0, neurons_fired_count = 0, synaptic_ops_count = 0,
      use_interface_mode = False, snn_interface = False, spike_output_link = False,
      interface_sent = [], link_out = []\<rparr>"

text \<open>
  Two properties of a nested call, used in the proofs about \<open>checkAndFireSpike\<close>: it never
  lowers the count of fired neurons, and it leaves every refractory neuron other than its
  own as it is.
\<close>

definition fired_mono :: "(SnnPE \<Rightarrow> 32 word \<Rightarrow> SnnPE) \<Rightarrow> bool" where
  "fired_mono recurse = (\<forall>pe t. neurons_fired_count pe \<le> neurons_fired_count (recurse pe t))"

definition keeps_refractory :: "(SnnPE \<Rightarrow> 32 word \<Rightarrow> SnnPE) \<Rightarrow> bool" where
  "keeps_refractory recurse =
     (\<forall>pe t j. unat t \<noteq> j \<and> refractory_timer (neurons pe ! j) \<noteq> 0 \<longrightarrow>
        neurons (recurse pe t) ! j = neurons pe ! j)"
section \<open>Properties\<close>

subsection \<open>Configuration of the multi-core tile\<close>

text \<open>
  C9. Constructing a multi-core tile aborts on these two parameters exactly when
  \<open>num_cores\<close> is outside 1..64 or \<open>neurons_per_core\<close> is outside 1..1024; for every
  in-range pair the validation reports no error.
\<close>

theorem validate_core_params_ok_iff:
  "(validate_core_params num_cores neurons_per_core = None) =
     (1 \<le> num_cores \<and> num_cores \<le> 64 \<and> 1 \<le> neurons_per_core \<and> neurons_per_core \<le> 1024)"
  by (auto simp: validate_core_params_def)

subsection \<open>Ring: the invariant and its preservation\<close>

lemma find_first_Some: "find_first P xs = Some k \<Longrightarrow> k < length xs \<and> P (xs ! k)"
  by (induction xs arbitrary: k) (auto split: if_splits)

lemma list_all_update: "list_all P xs \<Longrightarrow> (k < length xs \<Longrightarrow> P v) \<Longrightarrow> list_all P (xs[k := v])"
  by (cases "k < length xs") (auto simp: list_all_length nth_list_update)

lemma vc_push_inv:
  "vc_inv n vc \<Longrightarrow> hasSpace vc \<Longrightarrow> dst_in_range n m \<Longrightarrow> vc_inv n (vc_push now m vc)"
  by (auto simp: vc_inv_def vc_conserved_def hasSpace_def vc_push_def consumeCredit_def)

lemma vc_pop_inv: "vc_inv n vc \<Longrightarrow> vc_inv n (vc_pop vc)"
  by (cases "buffer vc") (auto simp: vc_inv_def vc_conserved_def vc_pop_def returnCredit_def)

lemma getVCs_inv: "node_inv n node \<Longrightarrow> list_all (vc_inv n) (getVCs node dir)"
  by (cases dir) (simp_all add: node_inv_def)

lemma setVCs_inv:
  "node_inv n node \<Longrightarrow> list_all (vc_inv n) vcs \<Longrightarrow> node_inv n (setVCs node dir vcs)"
  by (cases dir) (simp_all add: node_inv_def)

lemma setVCs_node_id: "node_id (setVCs node dir vcs) = node_id node"
  by (cases dir) simp_all

lemma selectOutputVC_Some:
  "selectOutputVC node dir prio = Some k \<Longrightarrow>
     k < length (getVCs node dir) \<and> hasSpace (getVCs node dir ! k)"
  by (auto simp: selectOutputVC_def split: if_splits option.splits dest: find_first_Some)

lemma ring_inv_nodeD:
  "ring_inv n r \<Longrightarrow> 0 \<le> i \<Longrightarrow> i < n \<Longrightarrow>
     node_inv n (nodes r ! nat i) \<and> node_id (nodes r ! nat i) = i"
  by (auto simp: ring_inv_def list_all_length)

lemma ring_inv_putNode:
  "ring_inv n r \<Longrightarrow> 0 \<le> i \<Longrightarrow> node_inv n node \<Longrightarrow> node_id node = i \<Longrightarrow>
     ring_inv n (putNode r i node)"
proof -
  assume inv: "ring_inv n r" and i: "0 \<le> i" and node: "node_inv n node" "node_id node = i"
  have "node_id ((nodes r)[nat i := node] ! k) = int k" if "k < nat n" for k
  proof (cases "k = nat i")
    case True
    then show ?thesis using that inv i node by (simp add: ring_inv_def)
  next
    case False
    then show ?thesis using that inv by (simp add: ring_inv_def)
  qed
  moreover have "list_all (node_inv n) ((nodes r)[nat i := node])"
    using inv node by (intro list_all_update) (simp_all add: ring_inv_def)
  ultimately show ?thesis using inv by (simp add: ring_inv_def putNode_def)
qed

lemma push_node_inv:
  assumes "node_inv n node" "selectOutputVC node dir prio = Some k" "dst_in_range n m"
  shows "node_inv n (setVCs node dir ((getVCs node dir)[k := vc_push now m (getVCs node dir ! k)]))"
proof -
  from selectOutputVC_Some [OF assms(2)]
  have k: "k < length (getVCs node dir)" and sp: "hasSpace (getVCs node dir ! k)" by simp_all
  have all: "list_all (vc_inv n) (getVCs node dir)" by (rule getVCs_inv [OF assms(1)])
  then have "vc_inv n (getVCs node dir ! k)" using k by (simp add: list_all_length)
  then have "vc_inv n (vc_push now m (getVCs node dir ! k))"
    using sp assms(3) by (rule vc_push_inv)
  then show ?thesis using all assms(1) by (intro setVCs_inv list_all_update)
qed

lemma pop_node_inv:
  assumes "node_inv n node"
  shows "node_inv n (setVCs node dir ((getVCs node dir)[k := vc_pop (getVCs node dir ! k)]))"
proof -
  have all: "list_all (vc_inv n) (getVCs node dir)" by (rule getVCs_inv [OF assms(1)])
  then have "k < length (getVCs node dir) \<Longrightarrow> vc_inv n (vc_pop (getVCs node dir ! k))"
    by (simp add: list_all_length vc_pop_inv)
  then show ?thesis using all assms(1) by (intro setVCs_inv list_all_update)
qed

lemma small_int_word_inj:
  assumes "0 \<le> a" "a < 2^31" "0 \<le> b" "b < 2^31"
    and "(word_of_int (take_bit 32 a) :: 64 word) = word_of_int (take_bit 32 b)"
  shows "a = b"
proof -
  have a: "take_bit 32 a = a" "take_bit 64 a = a"
    using assms(1,2) by (simp_all add: take_bit_int_eq_self)
  have b: "take_bit 32 b = b" "take_bit 64 b = b"
    using assms(3,4) by (simp_all add: take_bit_int_eq_self)
  from assms(5) have "take_bit 64 a = take_bit 64 b"
    by (simp add: a b word_of_int_eq_iff)
  then show ?thesis by (simp add: a b)
qed

lemma key_low:
  "take_bit 32 (generateRouteCacheKey s d) = (word_of_int (take_bit 32 d) :: 64 word)"
  unfolding generateRouteCacheKey_def
  by (rule bit_word_eqI) (auto simp: bit_simps)

lemma drop_small:
  assumes "0 \<le> d" "d < 2^31"
  shows "drop_bit 32 (word_of_int d :: 64 word) = 0"
proof -
  have "take_bit 32 d = d" using assms by (simp add: take_bit_int_eq_self)
  then have "(word_of_int d :: 64 word) = word_of_int (take_bit 32 d)" by simp
  also have "drop_bit 32 \<dots> = 0"
    by (rule bit_word_eqI) (auto simp: bit_simps)
  finally show ?thesis .
qed

lemma key_high:
  assumes "0 \<le> d" "d < 2^31"
  shows "drop_bit 32 (generateRouteCacheKey s d) = (word_of_int (take_bit 32 s) :: 64 word)"
proof -
  have "drop_bit 32 (generateRouteCacheKey s d)
      = drop_bit 32 (push_bit 32 (word_of_int s :: 64 word)) OR drop_bit 32 (word_of_int d)"
    unfolding generateRouteCacheKey_def by (rule bit_word_eqI) (auto simp: bit_simps)
  also have "\<dots> = drop_bit 32 (push_bit 32 (word_of_int s :: 64 word))"
    by (simp add: drop_small [OF assms])
  also have "\<dots> = word_of_int (take_bit 32 s)"
    by (rule bit_word_eqI) (auto simp: bit_simps)
  finally show ?thesis .
qed

lemma key_inj:
  assumes "0 \<le> s" "s < 2^31" "0 \<le> d" "d < 2^31" "0 \<le> s'" "s' < 2^31" "0 \<le> d'" "d' < 2^31"
    and eq: "generateRouteCacheKey s d = generateRouteCacheKey s' d'"
  shows "s = s' \<and> d = d'"
proof
  have "take_bit 32 (generateRouteCacheKey s d) = take_bit 32 (generateRouteCacheKey s' d')"
    using eq by simp
  then show "d = d'"
    using assms(3,4,7,8) by (intro small_int_word_inj) (simp_all add: key_low)
  have "drop_bit 32 (generateRouteCacheKey s d) = drop_bit 32 (generateRouteCacheKey s' d')"
    using eq by simp
  then show "s = s'"
    using assms(1-8) by (intro small_int_word_inj) (simp_all add: key_high)
qed

lemma selectRoute_fields:
  "nodes (snd (selectRoute r s d)) = nodes r"
  "num_nodes (snd (selectRoute r s d)) = num_nodes r"
  "total_cycles (snd (selectRoute r s d)) = total_cycles r"
  by (simp_all add: selectRoute_def Let_def split: option.splits)

lemma cache_ok_update:
  assumes ok: "cache_ok n c" and n: "n \<le> 2 ^ 31"
    and r: "0 \<le> s" "s < n" "0 \<le> d" "d < n"
  shows "cache_ok n (c(generateRouteCacheKey s d \<mapsto> route_of n s d))"
  unfolding cache_ok_def
proof (intro allI impI)
  fix s' d' x
  assume a: "0 \<le> s' \<and> s' < n \<and> 0 \<le> d' \<and> d' < n \<and>
    (c(generateRouteCacheKey s d \<mapsto> route_of n s d)) (generateRouteCacheKey s' d') = Some x"
  show "x = route_of n s' d'"
  proof (cases "generateRouteCacheKey s' d' = generateRouteCacheKey s d")
    case True
    have "s' = s \<and> d' = d" using a r n by (intro key_inj [OF _ _ _ _ _ _ _ _ True]) auto
    then show ?thesis using a True by simp
  next
    case False
    then show ?thesis using a ok unfolding cache_ok_def by auto
  qed
qed

lemma selectRoute_result:
  assumes ok: "cache_ok n (route_lookup_cache r)" and n: "num_nodes r = n"
    and r: "0 \<le> s" "s < n" "0 \<le> d" "d < n" and ne: "s \<noteq> d"
  shows "fst (selectRoute r s d) = route_of n s d"
proof (cases "route_lookup_cache r (generateRouteCacheKey s d)")
  case None
  then show ?thesis using ne n by (simp add: selectRoute_def Let_def route_of_def)
next
  case (Some x)
  then have "x = route_of n s d" using ok r unfolding cache_ok_def by blast
  then show ?thesis using ne Some by (simp add: selectRoute_def)
qed

lemma selectRoute_cache_ok:
  assumes "cache_ok n (route_lookup_cache r)" "num_nodes r = n" "n \<le> 2 ^ 31"
    and "0 \<le> s" "s < n" "0 \<le> d" "d < n"
  shows "cache_ok n (route_lookup_cache (snd (selectRoute r s d)))"
proof (cases "s \<noteq> d \<and> route_lookup_cache r (generateRouteCacheKey s d) = None")
  case True
  then have "route_lookup_cache (snd (selectRoute r s d))
      = (route_lookup_cache r)(generateRouteCacheKey s d \<mapsto> route_of n s d)"
    using assms(2) by (simp add: selectRoute_def Let_def route_of_def)
  then show ?thesis using cache_ok_update [OF assms(1,3-7)] by simp
next
  case False
  then have "snd (selectRoute r s d) = r"
    by (auto simp: selectRoute_def split: option.splits)
  then show ?thesis using assms(1) by simp
qed

lemma selectRoute_inv:
  assumes "ring_inv n r" "0 \<le> s" "s < n" "0 \<le> d" "d < n"
  shows "ring_inv n (snd (selectRoute r s d))"
  using assms selectRoute_cache_ok [of n r s d]
  by (simp add: ring_inv_def selectRoute_fields)

lemma node_inv_other_fields [simp]:
  "node_inv n (node\<lparr>ejection_queue := q\<rparr>) = node_inv n node"
  "node_inv n (node\<lparr>messages_ejected := a\<rparr>) = node_inv n node"
  "node_inv n (node\<lparr>messages_injected := a\<rparr>) = node_inv n node"
  "node_inv n (node\<lparr>messages_forwarded := a\<rparr>) = node_inv n node"
  "node_inv n (node\<lparr>node_latency_cycles := a\<rparr>) = node_inv n node"
  by (simp_all add: node_inv_def)

lemma ring_inv_other_fields [simp]:
  "ring_inv n (r\<lparr>total_cycles := a\<rparr>) = ring_inv n r"
  "ring_inv n (r\<lparr>total_latency_cycles := a\<rparr>) = ring_inv n r"
  "ring_inv n (r\<lparr>total_messages_routed := a\<rparr>) = ring_inv n r"
  "ring_inv n (r\<lparr>last_stats_cycle := a\<rparr>) = ring_inv n r"
  by (simp_all add: ring_inv_def)

lemma sendMessage_inv:
  assumes inv: "ring_inv n r"
  shows "ring_inv n (snd (sendMessage r src_node dst_node message prio))"
proof (cases "src_node < 0 \<or> src_node \<ge> num_nodes r \<or> dst_node < 0 \<or> dst_node \<ge> num_nodes r")
  case True
  then show ?thesis using inv by (simp add: sendMessage_def)
next
  case False
  have nn: "num_nodes r = n" using inv by (simp add: ring_inv_def)
  from False nn have rng: "0 \<le> src_node" "src_node < n" "0 \<le> dst_node" "dst_node < n"
    by simp_all
  define src where "src = nodes r ! nat src_node"
  have src: "node_inv n src" "node_id src = src_node"
    using ring_inv_nodeD [OF inv rng(1,2)] by (simp_all add: src_def)
  have gn: "getNode r src_node = Some src"
    using rng nn by (simp add: getNode_def src_def)
  show ?thesis
  proof (cases "src_node = dst_node")
    case True
    have "ring_inv n (putNode r src_node
               (src\<lparr>ejection_queue := ejection_queue src @ [message],
                    messages_ejected := messages_ejected src + 1\<rparr>))"
      using inv rng(1) src by (intro ring_inv_putNode) simp_all
    then show ?thesis using False gn True by (simp add: sendMessage_def)
  next
    case ne: False
    obtain route_dir r1 where sr: "selectRoute r src_node dst_node = (route_dir, r1)"
      by (cases "selectRoute r src_node dst_node")
    have r1: "ring_inv n r1"
      using selectRoute_inv [OF inv rng] sr by simp
    show ?thesis
    proof (cases "route_dir = INVALID \<or> selectOutputVC src route_dir prio = None")
      case True
      then show ?thesis using False gn ne sr r1
        by (auto simp: sendMessage_def)
    next
      case ok: False
      then obtain k where k: "selectOutputVC src route_dir prio = Some k" by auto
      define routed_msg where "routed_msg = message\<lparr>src_unit := src_node, dst_unit := dst_node,
                                              msg_timestamp := total_cycles r1\<rparr>"
      have dm: "dst_in_range n routed_msg"
        using rng by (simp add: dst_in_range_def routed_msg_def)
      define src' where "src' = setVCs src route_dir
         ((getVCs src route_dir)[k := vc_push (total_cycles r1) routed_msg (getVCs src route_dir ! k)])"
      have "node_inv n src'" unfolding src'_def by (rule push_node_inv [OF src(1) k dm])
      moreover have "node_id src' = src_node" by (simp add: src'_def setVCs_node_id src(2))
      ultimately have "ring_inv n (putNode r1 src_node
                          (src'\<lparr>messages_injected := messages_injected src' + 1\<rparr>))"
        using r1 rng(1) by (intro ring_inv_putNode) simp_all
      then show ?thesis using False gn ne sr ok k
        by (simp add: sendMessage_def Let_def routed_msg_def src'_def)
    qed
  qed
qed

lemma receiveMessage_inv:
  assumes inv: "ring_inv n r"
  shows "ring_inv n (snd (receiveMessage r i))"
proof (cases "getNode r i")
  case None
  then show ?thesis using inv by (simp add: receiveMessage_def)
next
  case (Some node)
  have nn: "num_nodes r = n" using inv by (simp add: ring_inv_def)
  from Some nn have rng: "0 \<le> i" "i < n" and nd: "node = nodes r ! nat i"
    by (auto simp: getNode_def split: if_splits)
  have node: "node_inv n node" "node_id node = i"
    using ring_inv_nodeD [OF inv rng] by (simp_all add: nd)
  show ?thesis
  proof (cases "ejection_queue node")
    case Nil
    then show ?thesis using inv Some by (simp add: receiveMessage_def)
  next
    case (Cons message rest)
    have a: "ring_inv n (putNode r i (node\<lparr>ejection_queue := rest\<rparr>))"
      using inv rng(1) node by (intro ring_inv_putNode) simp_all
    have b: "ring_inv n (putNode r i (node\<lparr>ejection_queue := rest,
                node_latency_cycles := x\<rparr>))" for x
      using inv rng(1) node by (intro ring_inv_putNode) simp_all
    show ?thesis using Some Cons a b by (simp add: receiveMessage_def Let_def)
  qed
qed

lemma next_in_range:
  "next_cw r i = Some j \<Longrightarrow> 0 \<le> j \<and> j < num_nodes r"
  "next_ccw r i = Some j \<Longrightarrow> 0 \<le> j \<and> j < num_nodes r"
  by (auto simp: next_cw_def next_ccw_def split: if_splits)

lemma forwardMessage_inv:
  assumes inv: "ring_inv n r" and rng: "0 \<le> i" "i < n" and dm: "dst_in_range n message"
  shows "ring_inv n (snd (forwardMessage r i message direction))"
proof (cases direction)
  case LOCAL
  have "ring_inv n (putNode r i ((nodes r ! nat i)
          \<lparr>ejection_queue := ejection_queue (nodes r ! nat i) @ [message]\<rparr>))"
    using inv rng(1) ring_inv_nodeD [OF inv rng] by (intro ring_inv_putNode) simp_all
  then show ?thesis using LOCAL by (simp add: forwardMessage_def Let_def)
next
  case INVALID
  then show ?thesis using inv by (simp add: forwardMessage_def)
next
  case CLOCKWISE
  show ?thesis
  proof (cases "next_cw r i")
    case None
    then show ?thesis using inv CLOCKWISE by (simp add: forwardMessage_def)
  next
    case (Some j)
    have nn: "num_nodes r = n" using inv by (simp add: ring_inv_def)
    have j: "0 \<le> j" "j < n" using next_in_range(1) [OF Some] nn by simp_all
    define next_node where "next_node = nodes r ! nat j"
    have nd: "node_inv n next_node" "node_id next_node = j"
      using ring_inv_nodeD [OF inv j] by (simp_all add: next_node_def)
    show ?thesis
    proof (cases "selectOutputVC next_node CLOCKWISE (msg_priority message)")
      case None
      then show ?thesis using inv CLOCKWISE Some
        by (simp add: forwardMessage_def Let_def next_node_def)
    next
      case (Some k)
      have "node_inv n (setVCs next_node CLOCKWISE ((getVCs next_node CLOCKWISE)
              [k := vc_push (total_cycles r) message (getVCs next_node CLOCKWISE ! k)]))"
        by (rule push_node_inv [OF nd(1) Some dm])
      then have "ring_inv n (putNode r j (setVCs next_node CLOCKWISE ((getVCs next_node CLOCKWISE)
              [k := vc_push (total_cycles r) message (getVCs next_node CLOCKWISE ! k)])))"
        using inv j(1) nd(2) by (intro ring_inv_putNode) (simp_all add: setVCs_node_id)
      then show ?thesis using inv CLOCKWISE \<open>next_cw r i = Some j\<close> Some
        by (simp add: forwardMessage_def Let_def next_node_def)
    qed
  qed
next
  case COUNTER_CLOCKWISE
  show ?thesis
  proof (cases "next_ccw r i")
    case None
    then show ?thesis using inv COUNTER_CLOCKWISE by (simp add: forwardMessage_def)
  next
    case (Some j)
    have nn: "num_nodes r = n" using inv by (simp add: ring_inv_def)
    have j: "0 \<le> j" "j < n" using next_in_range(2) [OF Some] nn by simp_all
    define next_node where "next_node = nodes r ! nat j"
    have nd: "node_inv n next_node" "node_id next_node = j"
      using ring_inv_nodeD [OF inv j] by (simp_all add: next_node_def)
    show ?thesis
    proof (cases "selectOutputVC next_node COUNTER_CLOCKWISE (msg_priority message)")
      case None
      then show ?thesis using inv COUNTER_CLOCKWISE Some
        by (simp add: forwardMessage_def Let_def next_node_def)
    next
      case (Some k)
      have "node_inv n (setVCs next_node COUNTER_CLOCKWISE ((getVCs next_node COUNTER_CLOCKWISE)
              [k := vc_push (total_cycles r) message (getVCs next_node COUNTER_CLOCKWISE ! k)]))"
        by (rule push_node_inv [OF nd(1) Some dm])
      then have "ring_inv n (putNode r j (setVCs next_node COUNTER_CLOCKWISE
              ((getVCs next_node COUNTER_CLOCKWISE)
              [k := vc_push (total_cycles r) message (getVCs next_node COUNTER_CLOCKWISE ! k)])))"
        using inv j(1) nd(2) by (intro ring_inv_putNode) (simp_all add: setVCs_node_id)
      then show ?thesis using inv COUNTER_CLOCKWISE \<open>next_ccw r i = Some j\<close> Some
        by (simp add: forwardMessage_def Let_def next_node_def)
    qed
  qed
qed

lemma pop_selected_inv:
  assumes inv: "ring_inv n r" and rng: "0 \<le> i" "i < n"
    and after: "\<And>node. node_inv n (after node) = node_inv n node"
               "\<And>node. node_id (after node) = node_id node"
  shows "ring_inv n (pop_selected r i direction k after)"
proof -
  define node where "node = nodes r ! nat i"
  have nd: "node_inv n node" "node_id node = i"
    using ring_inv_nodeD [OF inv rng] by (simp_all add: node_def)
  have "node_inv n (setVCs node direction
          ((getVCs node direction)[k := vc_pop (getVCs node direction ! k)]))"
    by (rule pop_node_inv [OF nd(1)])
  then have "ring_inv n (putNode r i (after (setVCs node direction
          ((getVCs node direction)[k := vc_pop (getVCs node direction ! k)]))))"
    using inv rng(1) nd(2) by (intro ring_inv_putNode) (simp_all add: after setVCs_node_id)
  then show ?thesis by (simp add: pop_selected_def Let_def node_def)
qed

lemma vcArbitration_loop_range:
  "vcArbitration_loop vcs i best hp = Some k \<Longrightarrow>
     best = Some k \<or> (i \<le> k \<and> k < i + length vcs)"
  by (induction vcs i best hp rule: vcArbitration_loop.induct) (auto split: if_splits)

lemma vcArbitration_range: "vcArbitration vcs = Some k \<Longrightarrow> k < length vcs"
  using vcArbitration_loop_range [of vcs 0 None INT_MAX k] by (simp add: vcArbitration_def)

lemma processDirectionVCs_inv:
  assumes inv: "ring_inv n r" and rng: "0 \<le> i" "i < n"
  shows "ring_inv n (processDirectionVCs r i direction)"
proof -
  define node where "node = nodes r ! nat i"
  define vcs where "vcs = getVCs node direction"
  have nd: "node_inv n node" "node_id node = i"
    using ring_inv_nodeD [OF inv rng] by (simp_all add: node_def)
  show ?thesis
  proof (cases "vcArbitration vcs")
    case None
    then show ?thesis using inv by (simp add: processDirectionVCs_def Let_def node_def vcs_def)
  next
    case (Some k)
    have k: "k < length vcs" by (rule vcArbitration_range [OF Some])
    have "list_all (vc_inv n) vcs" unfolding vcs_def by (rule getVCs_inv [OF nd(1)])
    then have vck: "vc_inv n (vcs ! k)" using k by (simp add: list_all_length)
    show ?thesis
    proof (cases "buffer (vcs ! k)")
      case Nil
      then show ?thesis using inv Some
        by (simp add: processDirectionVCs_def Let_def node_def vcs_def)
    next
      case (Cons msg rest)
      have dm: "dst_in_range n msg" using vck Cons by (simp add: vc_inv_def)
      show ?thesis
      proof (cases "dst_unit msg = node_id node")
        case True
        have "ring_inv n (pop_selected r i direction k
                      (\<lambda>n. n\<lparr>ejection_queue := ejection_queue n @ [msg],
                              messages_ejected := messages_ejected n + 1\<rparr>))"
          using inv rng by (intro pop_selected_inv) simp_all
        then show ?thesis using Some Cons True
          by (simp add: processDirectionVCs_def Let_def node_def vcs_def)
      next
        case False
        obtain next_dir r1 where sr: "selectRoute r (node_id node) (dst_unit msg) = (next_dir, r1)"
          by (cases "selectRoute r (node_id node) (dst_unit msg)")
        have r1: "ring_inv n r1"
          using selectRoute_inv [OF inv, of "node_id node" "dst_unit msg"] sr nd(2) rng dm
          by (simp add: dst_in_range_def)
        obtain ok r2 where fw: "forwardMessage r1 i msg next_dir = (ok, r2)"
          by (cases "forwardMessage r1 i msg next_dir")
        have r2: "ring_inv n r2"
          using forwardMessage_inv [OF r1 rng dm, of next_dir] fw by simp
        have p1: "ring_inv n (pop_selected r1 i direction k (\<lambda>n. n))"
          using r1 rng by (intro pop_selected_inv) simp_all
        have p2: "ring_inv n (pop_selected r2 i direction k
                      (\<lambda>n. n\<lparr>messages_forwarded := messages_forwarded n + 1\<rparr>))"
          using r2 rng by (intro pop_selected_inv) simp_all
        show ?thesis using Some Cons False sr fw r2 p1 p2
          by (simp add: processDirectionVCs_def Let_def node_def vcs_def split: bool.splits)
      qed
    qed
  qed
qed

lemma processNodeRouting_inv:
  assumes inv: "ring_inv n r"
  shows "ring_inv n (processNodeRouting r i)"
proof (cases "getNode r i")
  case None
  then show ?thesis using inv by (simp add: processNodeRouting_def)
next
  case (Some node)
  have nn: "num_nodes r = n" using inv by (simp add: ring_inv_def)
  from Some nn have rng: "0 \<le> i" "i < n"
    by (auto simp: getNode_def split: if_splits)
  show ?thesis using Some
    by (simp add: processNodeRouting_def processDirectionVCs_inv [OF _ rng] inv)
qed

lemma foldl_processNodeRouting_inv:
  "ring_inv n r \<Longrightarrow> ring_inv n (foldl (\<lambda>s i. processNodeRouting s (int i)) r js)"
  by (induction js arbitrary: r) (simp_all add: processNodeRouting_inv)

lemma tick_inv:
  assumes "ring_inv n r"
  shows "ring_inv n (tick r current_cycle)"
proof -
  have "ring_inv n (r\<lparr>total_cycles := current_cycle\<rparr>)" using assms by simp
  then show ?thesis
    by (simp add: tick_def Let_def updateStatistics_def foldl_processNodeRouting_inv)
qed

lemma ring_step_inv: "ring_inv n r \<Longrightarrow> ring_inv n (ring_step r op)"
  by (cases op) (simp_all add: sendMessage_inv tick_inv receiveMessage_inv)

lemma ring_run_inv: "ring_inv n r \<Longrightarrow> ring_inv n (ring_run r ops)"
  unfolding ring_run_def by (induction ops arbitrary: r) (simp_all add: ring_step_inv)

lemma new_Ring_inv: "ring_inv n (new_Ring n v c)"
  by (auto simp: ring_inv_def new_Ring_def new_RingNode_def node_inv_def initial_vcs_def
      list_all_length vc_inv_def vc_conserved_def new_VirtualChannel_def cache_ok_def)

lemma ring_inv_conserved: "ring_inv n r \<Longrightarrow> ring_conserved r"
  by (auto simp: ring_inv_def ring_conserved_def node_inv_def node_conserved_def vc_inv_def
      list_all_length)

text \<open>
  C2. For every virtual channel of every ring node, \<open>buffer.len() + credits = max_credits\<close>
  holds in the initial state of the ring and after every sequence of the ring operations
  \<open>sendMessage\<close>, \<open>tick\<close> and \<open>receiveMessage\<close>, whatever their arguments.
\<close>

theorem credit_conservation:
  "ring_conserved (ring_run (new_Ring n v c) ops)"
  by (rule ring_inv_conserved [OF ring_run_inv [OF new_Ring_inv]])

subsection \<open>Ring: route selection and sending to the own node\<close>

lemma calculateHops_mod:
  assumes "0 \<le> src" "src < n" "0 \<le> dst" "dst < n" "src \<noteq> dst"
  shows "calculateHops n src dst CLOCKWISE = (dst - src) mod n"
    and "calculateHops n src dst COUNTER_CLOCKWISE = (src - dst) mod n"
proof -
  have wrap: "(a - b) mod n = n - b + a" if "0 \<le> a" "a < b" "b < n" for a b :: int
  proof -
    have "(a - b) mod n = (a - b + n) mod n" by simp
    also have "\<dots> = a - b + n" using that by (intro mod_pos_pos_trivial) auto
    finally show ?thesis by simp
  qed
  show "calculateHops n src dst CLOCKWISE = (dst - src) mod n"
  proof (cases "dst > src")
    case True
    then show ?thesis using assms by (simp add: calculateHops_def mod_pos_pos_trivial)
  next
    case False
    then have "dst < src" using assms(5) by simp
    then show ?thesis using assms wrap [of dst src] by (simp add: calculateHops_def)
  qed
  show "calculateHops n src dst COUNTER_CLOCKWISE = (src - dst) mod n"
  proof (cases "src > dst")
    case True
    then show ?thesis using assms by (simp add: calculateHops_def mod_pos_pos_trivial)
  next
    case False
    then have "src < dst" using assms(5) by simp
    then show ?thesis using assms wrap [of src dst] by (simp add: calculateHops_def)
  qed
qed

lemma upt4: "[0..<4] = [0,1,2,3]" by (simp add: upt_rec)

text \<open>
  C3. On a ring of \<open>K\<close> nodes (\<open>K\<close> a C++ \<open>int\<close>), for distinct nodes \<open>src\<close> and \<open>dst\<close> the
  hop counts computed by \<open>calculateHops\<close> are \<open>(dst - src) mod K\<close> clockwise and
  \<open>(src - dst) mod K\<close> counter-clockwise, and \<open>selectRoute\<close>, in every state the ring reaches
  (whatever its lookup cache holds by then), answers clockwise exactly when the clockwise
  count is less than or equal to the other one: ties go clockwise.
\<close>

theorem selectRoute_shortest:
  assumes "0 \<le> src" "src < K" "0 \<le> dst" "dst < K" "src \<noteq> dst" "K < 2 ^ 31"
  shows "calculateHops K src dst CLOCKWISE = (dst - src) mod K \<and>
         calculateHops K src dst COUNTER_CLOCKWISE = (src - dst) mod K \<and>
         fst (selectRoute (ring_run (new_Ring K V C) ops) src dst) =
           (if (dst - src) mod K \<le> (src - dst) mod K then CLOCKWISE else COUNTER_CLOCKWISE)"
proof -
  let ?r = "ring_run (new_Ring K V C) ops"
  have inv: "ring_inv K ?r" by (rule ring_run_inv [OF new_Ring_inv])
  then have "cache_ok K (route_lookup_cache ?r)" "num_nodes ?r = K"
    using assms(6) by (simp_all add: ring_inv_def)
  then have "fst (selectRoute ?r src dst) = route_of K src dst"
    using assms(1-5) by (rule selectRoute_result)
  then show ?thesis
    using calculateHops_mod [OF assms(1-5)] by (simp add: route_of_def)
qed

theorem selectRoute_shortest_witness:
  "fst (selectRoute (ring_run (new_Ring 4 2 8) [Send 0 2 test_msg 1, Tick 1]) 0 2) = CLOCKWISE \<and>
   calculateHops 4 0 2 CLOCKWISE = 2 \<and> calculateHops 4 0 2 COUNTER_CLOCKWISE = 2 \<and>
   fst (selectRoute (ring_run (new_Ring 4 2 8) [Send 0 2 test_msg 1, Tick 1]) 0 3) = COUNTER_CLOCKWISE \<and>
   calculateHops 4 0 3 CLOCKWISE = 3 \<and> calculateHops 4 0 3 COUNTER_CLOCKWISE = 1"
  using selectRoute_shortest [of 0 4 2 2 8 "[Send 0 2 test_msg 1, Tick 1]"]
        selectRoute_shortest [of 0 4 3 2 8 "[Send 0 2 test_msg 1, Tick 1]"]
  by simp

text \<open>
  C5 as stated fails: sending from node 1 to node 1 on a fresh ring of four nodes reports
  success and changes the ring, the message being appended to the ejection queue of node 1.
\<close>

theorem send_to_self_counterexample:
  "fst (sendMessage (new_Ring 4 2 8) 1 1 test_msg 1) = True \<and>
   ejection_queue (nodes (snd (sendMessage (new_Ring 4 2 8) 1 1 test_msg 1)) ! 1) = [test_msg] \<and>
   ejection_queue (nodes (new_Ring 4 2 8) ! 1) = []"
  by (simp add: sendMessage_def new_Ring_def getNode_def putNode_def new_RingNode_def upt4)

lemma map_update_same:
  "k < length xs \<Longrightarrow> f y = f (xs ! k) \<Longrightarrow> map f (xs[k := y]) = map f xs"
  by (simp add: map_update list_update_same_conv)

text \<open>
  C5, amended. In every state the ring reaches, a send whose source and destination are the
  same valid node succeeds: the ring itself delivers locally, appending the message as it
  is to the ejection queue of that node and counting it as ejected (the node's
  \<open>messages_ejected\<close> goes up by one), and no virtual channel, credit or cached route
  changes; the ring after the send is the ring before it with only these two fields of
  that node updated. A send from a node to itself fails, leaving the ring unchanged, only
  when the node identifier is outside \<open>[0, K)\<close>.
\<close>

theorem sendMessage_same_node:
  fixes K :: int and V :: int and C :: nat and ops :: "ring_op list"
  defines "r \<equiv> ring_run (new_Ring K V C) ops"
  shows "(0 \<le> i \<and> i < K \<longrightarrow>
            fst (sendMessage r i i m p) \<and>
            ejection_queue (nodes (snd (sendMessage r i i m p)) ! nat i) =
              ejection_queue (nodes r ! nat i) @ [m] \<and>
            map cw_vcs (nodes (snd (sendMessage r i i m p))) = map cw_vcs (nodes r) \<and>
            map ccw_vcs (nodes (snd (sendMessage r i i m p))) = map ccw_vcs (nodes r) \<and>
            map local_vcs (nodes (snd (sendMessage r i i m p))) = map local_vcs (nodes r) \<and>
            route_lookup_cache (snd (sendMessage r i i m p)) = route_lookup_cache r \<and>
            messages_ejected (nodes (snd (sendMessage r i i m p)) ! nat i) =
              messages_ejected (nodes r ! nat i) + 1 \<and>
            snd (sendMessage r i i m p) =
              r\<lparr>nodes := (nodes r)[nat i :=
                   (nodes r ! nat i)
                     \<lparr>ejection_queue := ejection_queue (nodes r ! nat i) @ [m],
                      messages_ejected := messages_ejected (nodes r ! nat i) + 1\<rparr>]\<rparr>) \<and>
         (i < 0 \<or> K \<le> i \<longrightarrow> sendMessage r i i m p = (False, r))"
proof -
  have inv: "ring_inv K r" unfolding r_def by (rule ring_run_inv [OF new_Ring_inv])
  then have nn: "num_nodes r = K" and len: "length (nodes r) = nat K"
    by (simp_all add: ring_inv_def)
  have out: "sendMessage r i i m p = (False, r)" if "i < 0 \<or> K \<le> i"
    using that nn by (auto simp: sendMessage_def)
  have local: "fst (sendMessage r i i m p) \<and>
            ejection_queue (nodes (snd (sendMessage r i i m p)) ! nat i) =
              ejection_queue (nodes r ! nat i) @ [m] \<and>
            map cw_vcs (nodes (snd (sendMessage r i i m p))) = map cw_vcs (nodes r) \<and>
            map ccw_vcs (nodes (snd (sendMessage r i i m p))) = map ccw_vcs (nodes r) \<and>
            map local_vcs (nodes (snd (sendMessage r i i m p))) = map local_vcs (nodes r) \<and>
            route_lookup_cache (snd (sendMessage r i i m p)) = route_lookup_cache r \<and>
            messages_ejected (nodes (snd (sendMessage r i i m p)) ! nat i) =
              messages_ejected (nodes r ! nat i) + 1 \<and>
            snd (sendMessage r i i m p) =
              r\<lparr>nodes := (nodes r)[nat i :=
                   (nodes r ! nat i)
                     \<lparr>ejection_queue := ejection_queue (nodes r ! nat i) @ [m],
                      messages_ejected := messages_ejected (nodes r ! nat i) + 1\<rparr>]\<rparr>"
    if "0 \<le> i \<and> i < K"
  proof -
    have k: "nat i < length (nodes r)" using that len by simp
    have eq: "sendMessage r i i m p = (True, putNode r i
               ((nodes r ! nat i)\<lparr>ejection_queue := ejection_queue (nodes r ! nat i) @ [m],
                    messages_ejected := messages_ejected (nodes r ! nat i) + 1\<rparr>))"
      using that nn by (simp add: sendMessage_def getNode_def)
    show ?thesis unfolding eq using k by (simp add: putNode_def map_update_same)
  qed
  show ?thesis using out local by blast
qed

theorem sendMessage_same_node_witness:
  "fst (sendMessage (ring_run (new_Ring 4 2 8) []) 1 1 test_msg 1) \<and>
   ejection_queue (nodes (snd (sendMessage (ring_run (new_Ring 4 2 8) []) 1 1 test_msg 1)) ! nat 1) =
     ejection_queue (nodes (ring_run (new_Ring 4 2 8) []) ! nat 1) @ [test_msg] \<and>
   messages_ejected (nodes (snd (sendMessage (ring_run (new_Ring 4 2 8) []) 1 1 test_msg 1)) ! nat 1) =
     messages_ejected (nodes (ring_run (new_Ring 4 2 8) []) ! nat 1) + 1 \<and>
   sendMessage (ring_run (new_Ring 4 2 8) []) 7 7 test_msg 1 = (False, ring_run (new_Ring 4 2 8) [])"
proof -
  have inside: "(0::int) \<le> 1 \<and> (1::int) < 4" by simp
  have outside: "(7::int) < 0 \<or> (4::int) \<le> 7" by simp
  from sendMessage_same_node [of 1 4 2 8 "[]" test_msg 1] inside
       sendMessage_same_node [of 7 4 2 8 "[]" test_msg 1] outside
  show ?thesis by blast
qed

subsection \<open>Serialization of a spike\<close>

lemma roundtrip_eq: "roundtrip ev = Some (ev\<lparr>hop_count := 0\<rparr>)"
  by (simp add: roundtrip_def serialize_def deserialize_def serialize_order_def
      SST_SER_u32_def SST_SER_u64_def SST_SER_f64_def default_SpikeEvent_def)

text \<open>
  C4 (the code loses a field). Serializing a spike and deserializing it gives back the
  spike with \<open>hop_count\<close> reset to 0: \<open>serialize_order\<close> has no line for \<open>hop_count\<close>, so a
  spike that has made three hops comes back with none, while the five other fields are
  preserved.
\<close>

theorem roundtrip_loses_hop_count:
  "roundtrip spike3 = Some (spike3\<lparr>hop_count := 0\<rparr>) \<and> hop_count spike3 = 3 \<and>
   roundtrip spike3 \<noteq> Some spike3"
  by (simp add: roundtrip_eq) (simp add: spike3_def)

subsection \<open>Network interface: the send queue\<close>

lemma spaceAvailable_loop_conserves:
  "length (pending_spikes (spaceAvailable_loop sp sn nic vn)) +
   length (net_sent (spaceAvailable_loop sp sn nic vn)) =
   length (pending_spikes nic) + length (net_sent nic)"
proof (induction sp sn nic vn rule: spaceAvailable_loop.induct)
  case (1 sp sn nic vn)
  show ?case
  proof (cases "network nic")
    case None
    then show ?thesis by (subst (1 2) spaceAvailable_loop.simps) simp
  next
    case (Some net)
    show ?thesis
    proof (cases "pending_spikes nic")
      case Nil
      then show ?thesis using Some by (subst (1 2) spaceAvailable_loop.simps) simp
    next
      case (Cons spike rest)
      let ?req = "createNetworkRequest nic spike (dest_node spike)"
      show ?thesis
      proof (cases "sp net vn 1 \<and> sp net vn (size_in_bits ?req) \<and> fst (sn net ?req vn)")
        case False
        then show ?thesis using Some Cons
          by (subst (1 2) spaceAvailable_loop.simps)
             (auto simp: Let_def split: prod.splits bool.splits)
      next
        case True
        obtain net' where sn: "sn net ?req vn = (True, net')"
          using True by (cases "sn net ?req vn") auto
        have ih: "length (pending_spikes (spaceAvailable_loop sp sn
                    (nic\<lparr>network := Some net', pending_spikes := rest,
                         net_sent := net_sent nic @ [?req],
                         stat_spikes_sent := stat_spikes_sent nic + 1,
                         stat_packets_sent := stat_packets_sent nic + 1\<rparr>) vn)) +
                  length (net_sent (spaceAvailable_loop sp sn
                    (nic\<lparr>network := Some net', pending_spikes := rest,
                         net_sent := net_sent nic @ [?req],
                         stat_spikes_sent := stat_spikes_sent nic + 1,
                         stat_packets_sent := stat_packets_sent nic + 1\<rparr>) vn)) =
                  length rest + (length (net_sent nic) + 1)"
          using "1.IH" [OF Some Cons _ refl _ sn [symmetric] refl] True by simp
        show ?thesis using Some Cons True sn ih
          by (subst (1 2) spaceAvailable_loop.simps) (simp add: Let_def)
      qed
    qed
  qed
qed

lemma blocked_sends:
  "pending_spikes (foldl (\<lambda>n e. sendSpike full_spaceToSend full_send n (Some e))
       (network_nic\<lparr>pending_spikes := q\<rparr>) (replicate k remote_spike)) =
     q @ replicate k remote_spike"
proof (induction k arbitrary: q)
  case 0
  then show ?case by simp
next
  case (Suc k)
  have step: "sendSpike full_spaceToSend full_send (network_nic\<lparr>pending_spikes := q\<rparr>)
          (Some remote_spike) = network_nic\<lparr>pending_spikes := q @ [remote_spike]\<rparr>"
    by (simp add: sendSpike_def network_nic_def remote_spike_def full_spaceToSend_def Let_def)
  show ?case using Suc [of "q @ [remote_spike]"]
    by (simp add: step replicate_app_Cons_same)
qed

lemma createNetworkRequest_node:
  "nic_node_id nic' = nic_node_id nic \<Longrightarrow>
   createNetworkRequest nic' e d = createNetworkRequest nic e d"
  by (simp add: createNetworkRequest_def)

lemma createNetworkRequest_fields:
  "createNetworkRequest nic e d =
     \<lparr>req_dest = uint d, req_src = uint (nic_node_id nic), req_vn = 0,
      size_in_bits = sizeof_SpikePayload * 8,
      req_head = True, req_tail = True, allow_adaptive = True,
      req_payload =
        \<lparr>src_neuron_id = neuron_id e, dest_neuron_id = dest_neuron e,
         payload_timestamp = timestamp e, payload_weight = weight e\<rparr>\<rparr>"
  by (simp add: createNetworkRequest_def)

text \<open>
  What one run of the retry loop does to the queue: it sends a prefix of the queue, each
  spike as its own request and in order, and leaves the remainder, possibly with its
  first spike moved to the back.
\<close>

lemma spaceAvailable_loop_prefix:
  "\<exists>sent remaining.
     pending_spikes nic = sent @ remaining \<and>
     net_sent (spaceAvailable_loop sp sn nic vn) =
       net_sent nic @ map (\<lambda>e. createNetworkRequest nic e (dest_node e)) sent \<and>
     stat_spikes_sent (spaceAvailable_loop sp sn nic vn) =
       stat_spikes_sent nic + of_nat (length sent) \<and>
     (pending_spikes (spaceAvailable_loop sp sn nic vn) = remaining \<or>
      (\<exists>s rest. remaining = s # rest \<and>
         pending_spikes (spaceAvailable_loop sp sn nic vn) = rest @ [s]))"
proof (induction sp sn nic vn rule: spaceAvailable_loop.induct)
  case (1 sp sn nic vn)
  let ?P = "\<lambda>res sent remaining.
     pending_spikes nic = sent @ remaining \<and>
     net_sent res = net_sent nic @ map (\<lambda>e. createNetworkRequest nic e (dest_node e)) sent \<and>
     stat_spikes_sent res = stat_spikes_sent nic + of_nat (length sent) \<and>
     (pending_spikes res = remaining \<or>
      (\<exists>s rest. remaining = s # rest \<and> pending_spikes res = rest @ [s]))"
  show ?case
  proof (cases "network nic")
    case None
    then have "spaceAvailable_loop sp sn nic vn = nic"
      by (subst spaceAvailable_loop.simps) simp
    then have "?P (spaceAvailable_loop sp sn nic vn) [] (pending_spikes nic)" by simp
    then show ?thesis by blast
  next
    case (Some net)
    show ?thesis
    proof (cases "pending_spikes nic = [] \<or> \<not> sp net vn 1")
      case True
      then have "spaceAvailable_loop sp sn nic vn = nic"
        using Some by (subst spaceAvailable_loop.simps) (auto split: list.splits)
      then have "?P (spaceAvailable_loop sp sn nic vn) [] (pending_spikes nic)" by simp
      then show ?thesis by blast
    next
      case False
      then obtain spike rest where Cons: "pending_spikes nic = spike # rest"
        by (cases "pending_spikes nic") auto
      from False have sp1: "sp net vn 1" by simp
      let ?req = "createNetworkRequest nic spike (dest_node spike)"
      show ?thesis
      proof (cases "sp net vn (size_in_bits ?req)")
        case False
        have "spaceAvailable_loop sp sn nic vn = nic\<lparr>pending_spikes := rest @ [spike]\<rparr>"
          using Some Cons sp1 False by (subst spaceAvailable_loop.simps) (simp add: Let_def)
        then have "?P (spaceAvailable_loop sp sn nic vn) [] (spike # rest)"
          using Cons by simp
        then show ?thesis by blast
      next
        case True
        obtain ok net' where sn: "sn net ?req vn = (ok, net')"
          by (cases "sn net ?req vn") auto
        show ?thesis
        proof (cases ok)
          case False
          have "spaceAvailable_loop sp sn nic vn =
                  nic\<lparr>network := Some net', pending_spikes := rest @ [spike]\<rparr>"
            using Some Cons sp1 True sn False
            by (subst spaceAvailable_loop.simps) (simp add: Let_def)
          then have "?P (spaceAvailable_loop sp sn nic vn) [] (spike # rest)"
            using Cons by simp
          then show ?thesis by blast
        next
          case ok: True
          let ?nic' = "nic\<lparr>network := Some net', pending_spikes := rest,
                  net_sent := net_sent nic @ [?req],
                  stat_spikes_sent := stat_spikes_sent nic + 1,
                  stat_packets_sent := stat_packets_sent nic + 1\<rparr>"
          have sn': "sn net ?req vn = (True, net')" using sn ok by simp
          have eq: "spaceAvailable_loop sp sn nic vn = spaceAvailable_loop sp sn ?nic' vn"
            using Some Cons sp1 True sn'
            by (subst spaceAvailable_loop.simps) (simp add: Let_def)
          have same: "createNetworkRequest ?nic' e d = createNetworkRequest nic e d" for e d
            by (rule createNetworkRequest_node) simp
          from "1.IH" [OF Some Cons _ refl _ sn' [symmetric] refl] sp1 True
          obtain sent remaining where ih:
            "pending_spikes ?nic' = sent @ remaining"
            "net_sent (spaceAvailable_loop sp sn ?nic' vn) =
               net_sent ?nic' @ map (\<lambda>e. createNetworkRequest ?nic' e (dest_node e)) sent"
            "stat_spikes_sent (spaceAvailable_loop sp sn ?nic' vn) =
               stat_spikes_sent ?nic' + of_nat (length sent)"
            "pending_spikes (spaceAvailable_loop sp sn ?nic' vn) = remaining \<or>
              (\<exists>s rest. remaining = s # rest \<and>
                 pending_spikes (spaceAvailable_loop sp sn ?nic' vn) = rest @ [s])"
            by auto
          have "?P (spaceAvailable_loop sp sn nic vn) (spike # sent) remaining"
            using ih Cons unfolding eq same by (simp add: algebra_simps)
          then show ?thesis by blast
        qed
      qed
    qed
  qed
qed

text \<open>
  C7 as stated fails: \<open>sendSpike\<close> never compares the queue with \<open>output_buf_size\<close> and never
  drops. With the default buffer size of 1 KiB and a network that reports no space, 1025
  spikes leave 1025 entries in the send queue.
\<close>

theorem nic_queue_unbounded_counterexample:
  "length (pending_spikes (foldl (\<lambda>n e. sendSpike full_spaceToSend full_send n (Some e))
       network_nic (replicate 1025 remote_spike))) = 1025 \<and>
   output_buf_size network_nic = 1024"
proof -
  have "network_nic = network_nic\<lparr>pending_spikes := []\<rparr>" by (simp add: network_nic_def)
  then have "pending_spikes (foldl (\<lambda>n e. sendSpike full_spaceToSend full_send n (Some e))
       network_nic (replicate 1025 remote_spike)) = [] @ replicate 1025 remote_spike"
    using blocked_sends [of "[]" 1025] by simp
  then show ?thesis by (simp add: network_nic_def)
qed

text \<open>
  C7, amended. In network mode, a spike that is not local is sent as one request, which
  names the spike's destination node, the controller's own node and virtual network 0 and
  carries the spike's two neuron ids, its timestamp and its weight. When the network
  reports no space, or refuses the request, the spike is pushed onto the back of the send
  queue, the controller being otherwise unchanged; the queue has no bound and nothing is
  dropped. On the space-available notification the spike at the head of the queue is tried
  first: when the network takes it, the loop goes on with the rest; when the network has
  no room for it or refuses it, that spike goes to the back of the queue and the loop
  stops; with an empty queue, or no space for a single bit, nothing happens. So one
  notification sends a prefix of the queue, in order, and keeps every other spike queued.
\<close>

theorem nic_backpressure:
  assumes "\<not> use_direct_link nic" and "network nic = Some net"
    and "\<not> (dest_node ev = nic_node_id nic \<and> neuron_id ev = dest_neuron ev)"
  shows "(\<not> sp net 0 (size_in_bits (createNetworkRequest nic ev (dest_node ev))) \<longrightarrow>
            sendSpike sp sn nic (Some ev) = nic\<lparr>pending_spikes := pending_spikes nic @ [ev]\<rparr>) \<and>
         length (pending_spikes (sendSpike sp sn nic (Some ev))) +
           length (net_sent (sendSpike sp sn nic (Some ev))) =
           length (pending_spikes nic) + length (net_sent nic) + 1 \<and>
         (pending_spikes nic = spike # rest \<and> sp net vn 1 \<and>
          sp net vn (size_in_bits (createNetworkRequest nic spike (dest_node spike))) \<and>
          sn net (createNetworkRequest nic spike (dest_node spike)) vn = (True, net') \<longrightarrow>
            spaceAvailable sp sn nic vn =
              spaceAvailable sp sn
                (nic\<lparr>network := Some net', pending_spikes := rest,
                     net_sent := net_sent nic @ [createNetworkRequest nic spike (dest_node spike)],
                     stat_spikes_sent := stat_spikes_sent nic + 1,
                     stat_packets_sent := stat_packets_sent nic + 1\<rparr>) vn) \<and>
         length (pending_spikes (spaceAvailable sp sn nic vn)) +
           length (net_sent (spaceAvailable sp sn nic vn)) =
           length (pending_spikes nic) + length (net_sent nic) \<and>
         (sp net 0 (size_in_bits (createNetworkRequest nic ev (dest_node ev))) \<and>
          sn net (createNetworkRequest nic ev (dest_node ev)) 0 = (False, net') \<longrightarrow>
            sendSpike sp sn nic (Some ev) =
              nic\<lparr>network := Some net', pending_spikes := pending_spikes nic @ [ev]\<rparr>) \<and>
         (sp net 0 (size_in_bits (createNetworkRequest nic ev (dest_node ev))) \<and>
          sn net (createNetworkRequest nic ev (dest_node ev)) 0 = (True, net') \<longrightarrow>
            sendSpike sp sn nic (Some ev) =
              nic\<lparr>network := Some net',
                  net_sent := net_sent nic @ [createNetworkRequest nic ev (dest_node ev)],
                  spikes_sent_count := spikes_sent_count nic + 1,
                  packets_sent_count := packets_sent_count nic + 1,
                  stat_spikes_sent := stat_spikes_sent nic + 1,
                  stat_packets_sent := stat_packets_sent nic + 1\<rparr>) \<and>
         (pending_spikes nic = spike # rest \<and> sp net vn 1 \<and>
          \<not> sp net vn (size_in_bits (createNetworkRequest nic spike (dest_node spike))) \<longrightarrow>
            spaceAvailable sp sn nic vn = nic\<lparr>pending_spikes := rest @ [spike]\<rparr>) \<and>
         (pending_spikes nic = spike # rest \<and> sp net vn 1 \<and>
          sp net vn (size_in_bits (createNetworkRequest nic spike (dest_node spike))) \<and>
          sn net (createNetworkRequest nic spike (dest_node spike)) vn = (False, net') \<longrightarrow>
            spaceAvailable sp sn nic vn =
              nic\<lparr>network := Some net', pending_spikes := rest @ [spike]\<rparr>) \<and>
         (pending_spikes nic = [] \<or> \<not> sp net vn 1 \<longrightarrow> spaceAvailable sp sn nic vn = nic) \<and>
         (\<exists>sent remaining.
            pending_spikes nic = sent @ remaining \<and>
            net_sent (spaceAvailable sp sn nic vn) =
              net_sent nic @ map (\<lambda>e. createNetworkRequest nic e (dest_node e)) sent \<and>
            stat_spikes_sent (spaceAvailable sp sn nic vn) =
              stat_spikes_sent nic + of_nat (length sent) \<and>
            (pending_spikes (spaceAvailable sp sn nic vn) = remaining \<or>
             (\<exists>s rest'. remaining = s # rest' \<and>
                pending_spikes (spaceAvailable sp sn nic vn) = rest' @ [s]))) \<and>
         createNetworkRequest nic ev (dest_node ev) =
           \<lparr>req_dest = uint (dest_node ev), req_src = uint (nic_node_id nic), req_vn = 0,
            size_in_bits = sizeof_SpikePayload * 8,
            req_head = True, req_tail = True, allow_adaptive = True,
            req_payload =
              \<lparr>src_neuron_id = neuron_id ev, dest_neuron_id = dest_neuron ev,
               payload_timestamp = timestamp ev, payload_weight = weight ev\<rparr>\<rparr>"
proof -
  let ?req = "createNetworkRequest nic ev (dest_node ev)"
  let ?rq = "createNetworkRequest nic spike (dest_node spike)"
  have sa: "spaceAvailable sp sn nic vn = spaceAvailable_loop sp sn nic vn"
    using assms(2) by (simp add: spaceAvailable_def)
  have a: "sendSpike sp sn nic (Some ev) = nic\<lparr>pending_spikes := pending_spikes nic @ [ev]\<rparr>"
    if "\<not> sp net 0 (size_in_bits ?req)"
    using that assms by (simp add: sendSpike_def Let_def)
  have b: "length (pending_spikes (sendSpike sp sn nic (Some ev))) +
           length (net_sent (sendSpike sp sn nic (Some ev))) =
           length (pending_spikes nic) + length (net_sent nic) + 1"
    using assms by (auto simp: sendSpike_def Let_def split: prod.splits bool.splits)
  have c: "spaceAvailable sp sn nic vn =
              spaceAvailable sp sn
                (nic\<lparr>network := Some net', pending_spikes := rest,
                     net_sent := net_sent nic @ [?rq],
                     stat_spikes_sent := stat_spikes_sent nic + 1,
                     stat_packets_sent := stat_packets_sent nic + 1\<rparr>) vn"
    if "pending_spikes nic = spike # rest \<and> sp net vn 1 \<and> sp net vn (size_in_bits ?rq) \<and>
        sn net ?rq vn = (True, net')"
    using that assms(2)
    by (simp add: spaceAvailable_def) (subst spaceAvailable_loop.simps, simp add: Let_def)
  have d: "length (pending_spikes (spaceAvailable sp sn nic vn)) +
           length (net_sent (spaceAvailable sp sn nic vn)) =
           length (pending_spikes nic) + length (net_sent nic)"
    unfolding sa by (rule spaceAvailable_loop_conserves)
  have e: "sendSpike sp sn nic (Some ev) =
              nic\<lparr>network := Some net', pending_spikes := pending_spikes nic @ [ev]\<rparr>"
    if "sp net 0 (size_in_bits ?req) \<and> sn net ?req 0 = (False, net')"
    using that assms by (auto simp: sendSpike_def Let_def)
  have f: "sendSpike sp sn nic (Some ev) =
              nic\<lparr>network := Some net', net_sent := net_sent nic @ [?req],
                  spikes_sent_count := spikes_sent_count nic + 1,
                  packets_sent_count := packets_sent_count nic + 1,
                  stat_spikes_sent := stat_spikes_sent nic + 1,
                  stat_packets_sent := stat_packets_sent nic + 1\<rparr>"
    if "sp net 0 (size_in_bits ?req) \<and> sn net ?req 0 = (True, net')"
    using that assms by (auto simp: sendSpike_def Let_def)
  have g: "spaceAvailable sp sn nic vn = nic\<lparr>pending_spikes := rest @ [spike]\<rparr>"
    if "pending_spikes nic = spike # rest \<and> sp net vn 1 \<and> \<not> sp net vn (size_in_bits ?rq)"
    unfolding sa using that assms(2)
    by (subst spaceAvailable_loop.simps) (simp add: Let_def)
  have h: "spaceAvailable sp sn nic vn =
             nic\<lparr>network := Some net', pending_spikes := rest @ [spike]\<rparr>"
    if "pending_spikes nic = spike # rest \<and> sp net vn 1 \<and> sp net vn (size_in_bits ?rq) \<and>
        sn net ?rq vn = (False, net')"
    unfolding sa using that assms(2)
    by (subst spaceAvailable_loop.simps) (simp add: Let_def)
  have i: "spaceAvailable sp sn nic vn = nic" if "pending_spikes nic = [] \<or> \<not> sp net vn 1"
    unfolding sa using that assms(2)
    by (subst spaceAvailable_loop.simps) (auto split: list.splits)
  have j: "\<exists>sent remaining.
            pending_spikes nic = sent @ remaining \<and>
            net_sent (spaceAvailable sp sn nic vn) =
              net_sent nic @ map (\<lambda>e. createNetworkRequest nic e (dest_node e)) sent \<and>
            stat_spikes_sent (spaceAvailable sp sn nic vn) =
              stat_spikes_sent nic + of_nat (length sent) \<and>
            (pending_spikes (spaceAvailable sp sn nic vn) = remaining \<or>
             (\<exists>s rest'. remaining = s # rest' \<and>
                pending_spikes (spaceAvailable sp sn nic vn) = rest' @ [s]))"
    unfolding sa by (rule spaceAvailable_loop_prefix)
  have k: "?req =
           \<lparr>req_dest = uint (dest_node ev), req_src = uint (nic_node_id nic), req_vn = 0,
            size_in_bits = sizeof_SpikePayload * 8,
            req_head = True, req_tail = True, allow_adaptive = True,
            req_payload =
              \<lparr>src_neuron_id = neuron_id ev, dest_neuron_id = dest_neuron ev,
               payload_timestamp = timestamp ev, payload_weight = weight ev\<rparr>\<rparr>"
    by (rule createNetworkRequest_fields)
  from a b c d e f g h i j k show ?thesis by (intro conjI impI) assumption+
qed

theorem nic_backpressure_witness:
  "sendSpike full_spaceToSend full_send network_nic (Some remote_spike) =
     network_nic\<lparr>pending_spikes := [remote_spike]\<rparr> \<and>
   spaceAvailable open_spaceToSend open_send (network_nic\<lparr>pending_spikes := [remote_spike]\<rparr>) 0 =
     network_nic\<lparr>net_sent := [createNetworkRequest network_nic remote_spike 2],
                 stat_spikes_sent := 1, stat_packets_sent := 1\<rparr> \<and>
   length (pending_spikes (spaceAvailable open_spaceToSend open_send
       (network_nic\<lparr>pending_spikes := [remote_spike]\<rparr>) 0)) +
     length (net_sent (spaceAvailable open_spaceToSend open_send
       (network_nic\<lparr>pending_spikes := [remote_spike]\<rparr>) 0)) = 1 \<and>
   spaceAvailable open_spaceToSend full_send
       (network_nic\<lparr>pending_spikes := [remote_spike, same_node_spike]\<rparr>) 0 =
     network_nic\<lparr>pending_spikes := [same_node_spike, remote_spike]\<rparr> \<and>
   spaceAvailable tight_spaceToSend open_send
       (network_nic\<lparr>pending_spikes := [remote_spike, same_node_spike]\<rparr>) 0 =
     network_nic\<lparr>pending_spikes := [same_node_spike, remote_spike]\<rparr> \<and>
   spaceAvailable full_spaceToSend open_send
       (network_nic\<lparr>pending_spikes := [remote_spike, same_node_spike]\<rparr>) 0 =
     network_nic\<lparr>pending_spikes := [remote_spike, same_node_spike]\<rparr> \<and>
   sendSpike open_spaceToSend full_send network_nic (Some remote_spike) =
     network_nic\<lparr>pending_spikes := [remote_spike]\<rparr> \<and>
   net_sent (sendSpike open_spaceToSend open_send network_nic (Some remote_spike)) =
     [\<lparr>req_dest = 2, req_src = 0, req_vn = 0, size_in_bits = 512,
       req_head = True, req_tail = True, allow_adaptive = True,
       req_payload = \<lparr>src_neuron_id = 5, dest_neuron_id = 9, payload_timestamp = 100,
                      payload_weight = 1 / 2\<rparr>\<rparr>]"
  using nic_backpressure [of network_nic "()" remote_spike full_spaceToSend full_send
          remote_spike "[]" 0 "()"]
        nic_backpressure [of "network_nic\<lparr>pending_spikes := [remote_spike]\<rparr>" "()" remote_spike
          open_spaceToSend open_send remote_spike "[]" 0 "()"]
        nic_backpressure [of "network_nic\<lparr>pending_spikes := [remote_spike, same_node_spike]\<rparr>"
          "()" remote_spike open_spaceToSend full_send remote_spike "[same_node_spike]" 0 "()"]
        nic_backpressure [of "network_nic\<lparr>pending_spikes := [remote_spike, same_node_spike]\<rparr>"
          "()" remote_spike tight_spaceToSend open_send remote_spike "[same_node_spike]" 0 "()"]
        nic_backpressure [of "network_nic\<lparr>pending_spikes := [remote_spike, same_node_spike]\<rparr>"
          "()" remote_spike full_spaceToSend open_send remote_spike "[same_node_spike]" 0 "()"]
        nic_backpressure [of network_nic "()" remote_spike open_spaceToSend full_send
          remote_spike "[]" 0 "()"]
        nic_backpressure [of network_nic "()" remote_spike open_spaceToSend open_send
          remote_spike "[]" 0 "()"]
  by (simp add: network_nic_def remote_spike_def same_node_spike_def full_spaceToSend_def
      full_send_def open_spaceToSend_def open_send_def tight_spaceToSend_def
      spaceAvailable_def spaceAvailable_loop.simps createNetworkRequest_def
      sizeof_SpikePayload_def)

subsection \<open>Network interface: local delivery\<close>

text \<open>
  C10 as stated fails: the local branch of \<open>sendSpike\<close> calls the receive handler only when
  one is registered. On a controller without a handler, a spike for the controller's own
  node with equal neuron ids is delivered nowhere: the controller is left as it was.
\<close>

theorem local_spike_without_handler_counterexample:
  "dest_node self_spike = nic_node_id (network_nic\<lparr>spike_handler := False\<rparr>) \<and>
   neuron_id self_spike = dest_neuron self_spike \<and>
   handled (sendSpike open_spaceToSend open_send (network_nic\<lparr>spike_handler := False\<rparr>)
     (Some self_spike)) = [] \<and>
   sendSpike open_spaceToSend open_send (network_nic\<lparr>spike_handler := False\<rparr>)
     (Some self_spike) = network_nic\<lparr>spike_handler := False\<rparr>"
  by (simp add: sendSpike_def network_nic_def self_spike_def remote_spike_def)

text \<open>
  C10, amended. \<open>sendSpike\<close> takes its local branch, which touches neither the link, the
  network, the send queue nor any sent counter, exactly when the spike's destination node
  is the controller's own node and its source neuron id equals its destination neuron id;
  on that branch the spike is given to the receive handler when one is registered and is
  discarded otherwise, so a spike is handled locally exactly when, in addition, a handler
  is registered. Every other spike, among them one for the controller's own node whose
  two neuron ids differ, is never handled locally: with a direct link it is sent on the
  link and counted; in network mode it is sent and counted as one request, naming the
  spike's destination node, the controller's node and virtual network 0 and carrying the
  spike's two neuron ids, timestamp and weight, when the network has room and takes it,
  and is queued otherwise; with neither link nor network it is discarded.
\<close>

theorem sendSpike_local_iff:
  "(dest_node ev = nic_node_id nic \<and> neuron_id ev = dest_neuron ev \<longrightarrow>
      sendSpike sp sn nic (Some ev) =
        (if spike_handler nic then nic\<lparr>handled := handled nic @ [ev]\<rparr> else nic)) \<and>
   ((handled (sendSpike sp sn nic (Some ev)) = handled nic @ [ev]) =
      (dest_node ev = nic_node_id nic \<and> neuron_id ev = dest_neuron ev \<and> spike_handler nic)) \<and>
   (\<not> (dest_node ev = nic_node_id nic \<and> neuron_id ev = dest_neuron ev) \<longrightarrow>
      handled (sendSpike sp sn nic (Some ev)) = handled nic \<and>
      (use_direct_link nic \<and> direct_link nic \<longrightarrow>
         sendSpike sp sn nic (Some ev) =
           nic\<lparr>link_sent := link_sent nic @ [ev],
               spikes_sent_count := spikes_sent_count nic + 1,
               packets_sent_count := packets_sent_count nic + 1,
               stat_spikes_sent := stat_spikes_sent nic + 1,
               stat_packets_sent := stat_packets_sent nic + 1\<rparr>) \<and>
      (\<not> use_direct_link nic \<and> network nic = Some net \<longrightarrow>
         (sp net 0 (size_in_bits (createNetworkRequest nic ev (dest_node ev))) \<and>
          sn net (createNetworkRequest nic ev (dest_node ev)) 0 = (True, net') \<longrightarrow>
            sendSpike sp sn nic (Some ev) =
              nic\<lparr>network := Some net',
                  net_sent := net_sent nic @ [createNetworkRequest nic ev (dest_node ev)],
                  spikes_sent_count := spikes_sent_count nic + 1,
                  packets_sent_count := packets_sent_count nic + 1,
                  stat_spikes_sent := stat_spikes_sent nic + 1,
                  stat_packets_sent := stat_packets_sent nic + 1\<rparr>) \<and>
         (sp net 0 (size_in_bits (createNetworkRequest nic ev (dest_node ev))) \<and>
          sn net (createNetworkRequest nic ev (dest_node ev)) 0 = (False, net') \<longrightarrow>
            sendSpike sp sn nic (Some ev) =
              nic\<lparr>network := Some net', pending_spikes := pending_spikes nic @ [ev]\<rparr>) \<and>
         (\<not> sp net 0 (size_in_bits (createNetworkRequest nic ev (dest_node ev))) \<longrightarrow>
            sendSpike sp sn nic (Some ev) =
              nic\<lparr>pending_spikes := pending_spikes nic @ [ev]\<rparr>)) \<and>
      ((use_direct_link nic \<and> \<not> direct_link nic) \<or>
       (\<not> use_direct_link nic \<and> network nic = None) \<longrightarrow>
         sendSpike sp sn nic (Some ev) = nic)) \<and>
   createNetworkRequest nic ev (dest_node ev) =
     \<lparr>req_dest = uint (dest_node ev), req_src = uint (nic_node_id nic), req_vn = 0,
      size_in_bits = sizeof_SpikePayload * 8,
      req_head = True, req_tail = True, allow_adaptive = True,
      req_payload =
        \<lparr>src_neuron_id = neuron_id ev, dest_neuron_id = dest_neuron ev,
         payload_timestamp = timestamp ev, payload_weight = weight ev\<rparr>\<rparr>"
proof -
  let ?local = "dest_node ev = nic_node_id nic \<and> neuron_id ev = dest_neuron ev"
  let ?req = "createNetworkRequest nic ev (dest_node ev)"
  have a: "sendSpike sp sn nic (Some ev) =
             (if spike_handler nic then nic\<lparr>handled := handled nic @ [ev]\<rparr> else nic)"
    if "?local"
    using that by (simp add: sendSpike_def)
  have b: "(handled (sendSpike sp sn nic (Some ev)) = handled nic @ [ev]) =
             (dest_node ev = nic_node_id nic \<and> neuron_id ev = dest_neuron ev \<and>
              spike_handler nic)"
    by (auto simp: sendSpike_def Let_def split: prod.splits bool.splits)
  have c: "handled (sendSpike sp sn nic (Some ev)) = handled nic" if "\<not> ?local"
    using that by (auto simp: sendSpike_def Let_def split: prod.splits bool.splits)
  have d: "sendSpike sp sn nic (Some ev) =
           nic\<lparr>link_sent := link_sent nic @ [ev],
               spikes_sent_count := spikes_sent_count nic + 1,
               packets_sent_count := packets_sent_count nic + 1,
               stat_spikes_sent := stat_spikes_sent nic + 1,
               stat_packets_sent := stat_packets_sent nic + 1\<rparr>"
    if "\<not> ?local" "use_direct_link nic \<and> direct_link nic"
    using that by (auto simp: sendSpike_def)
  have e: "sendSpike sp sn nic (Some ev) =
              nic\<lparr>network := Some net', net_sent := net_sent nic @ [?req],
                  spikes_sent_count := spikes_sent_count nic + 1,
                  packets_sent_count := packets_sent_count nic + 1,
                  stat_spikes_sent := stat_spikes_sent nic + 1,
                  stat_packets_sent := stat_packets_sent nic + 1\<rparr>"
    if "\<not> ?local" "\<not> use_direct_link nic \<and> network nic = Some net"
       "sp net 0 (size_in_bits ?req) \<and> sn net ?req 0 = (True, net')"
    using that by (auto simp: sendSpike_def Let_def)
  have f: "sendSpike sp sn nic (Some ev) =
              nic\<lparr>network := Some net', pending_spikes := pending_spikes nic @ [ev]\<rparr>"
    if "\<not> ?local" "\<not> use_direct_link nic \<and> network nic = Some net"
       "sp net 0 (size_in_bits ?req) \<and> sn net ?req 0 = (False, net')"
    using that by (auto simp: sendSpike_def Let_def)
  have g: "sendSpike sp sn nic (Some ev) = nic\<lparr>pending_spikes := pending_spikes nic @ [ev]\<rparr>"
    if "\<not> ?local" "\<not> use_direct_link nic \<and> network nic = Some net"
       "\<not> sp net 0 (size_in_bits ?req)"
    using that by (auto simp: sendSpike_def Let_def)
  have h: "sendSpike sp sn nic (Some ev) = nic"
    if "\<not> ?local" "(use_direct_link nic \<and> \<not> direct_link nic) \<or>
                     (\<not> use_direct_link nic \<and> network nic = None)"
    using that by (auto simp: sendSpike_def)
  have k: "?req =
           \<lparr>req_dest = uint (dest_node ev), req_src = uint (nic_node_id nic), req_vn = 0,
            size_in_bits = sizeof_SpikePayload * 8,
            req_head = True, req_tail = True, allow_adaptive = True,
            req_payload =
              \<lparr>src_neuron_id = neuron_id ev, dest_neuron_id = dest_neuron ev,
               payload_timestamp = timestamp ev, payload_weight = weight ev\<rparr>\<rparr>"
    by (simp add: createNetworkRequest_def)
  from a b c d e f g h k show ?thesis by blast
qed

theorem sendSpike_local_iff_witness:
  "sendSpike full_spaceToSend full_send direct_nic (Some self_spike) =
     direct_nic\<lparr>handled := [self_spike]\<rparr> \<and>
   sendSpike open_spaceToSend open_send network_nic (Some self_spike) =
     network_nic\<lparr>handled := [self_spike]\<rparr> \<and>
   sendSpike open_spaceToSend open_send (network_nic\<lparr>spike_handler := False\<rparr>)
     (Some self_spike) = network_nic\<lparr>spike_handler := False\<rparr> \<and>
   handled (sendSpike full_spaceToSend full_send direct_nic (Some same_node_spike)) = [] \<and>
   link_sent (sendSpike full_spaceToSend full_send direct_nic (Some same_node_spike)) =
     [same_node_spike] \<and>
   spikes_sent_count (sendSpike full_spaceToSend full_send direct_nic (Some same_node_spike)) = 1 \<and>
   handled (sendSpike open_spaceToSend open_send network_nic (Some same_node_spike)) = [] \<and>
   net_sent (sendSpike open_spaceToSend open_send network_nic (Some same_node_spike)) =
     [\<lparr>req_dest = 0, req_src = 0, req_vn = 0, size_in_bits = 512,
       req_head = True, req_tail = True, allow_adaptive = True,
       req_payload = \<lparr>src_neuron_id = 5, dest_neuron_id = 9, payload_timestamp = 100,
                      payload_weight = 1 / 2\<rparr>\<rparr>] \<and>
   spikes_sent_count (sendSpike open_spaceToSend open_send network_nic (Some same_node_spike)) = 1 \<and>
   sendSpike open_spaceToSend full_send network_nic (Some same_node_spike) =
     network_nic\<lparr>pending_spikes := [same_node_spike]\<rparr> \<and>
   sendSpike full_spaceToSend open_send network_nic (Some same_node_spike) =
     network_nic\<lparr>pending_spikes := [same_node_spike]\<rparr> \<and>
   sendSpike open_spaceToSend open_send (network_nic\<lparr>network := None\<rparr>) (Some same_node_spike) =
     network_nic\<lparr>network := None\<rparr>"
  using sendSpike_local_iff [of self_spike direct_nic full_spaceToSend full_send "()" "()"]
        sendSpike_local_iff [of self_spike network_nic open_spaceToSend open_send "()" "()"]
        sendSpike_local_iff [of self_spike "network_nic\<lparr>spike_handler := False\<rparr>"
          open_spaceToSend open_send "()" "()"]
        sendSpike_local_iff [of same_node_spike direct_nic full_spaceToSend full_send "()" "()"]
        sendSpike_local_iff [of same_node_spike network_nic open_spaceToSend open_send "()" "()"]
        sendSpike_local_iff [of same_node_spike network_nic open_spaceToSend full_send "()" "()"]
        sendSpike_local_iff [of same_node_spike network_nic full_spaceToSend open_send "()" "()"]
        sendSpike_local_iff [of same_node_spike "network_nic\<lparr>network := None\<rparr>"
          open_spaceToSend open_send "()" "()"]
  by (simp add: direct_nic_def network_nic_def self_spike_def same_node_spike_def
      remote_spike_def full_spaceToSend_def full_send_def open_spaceToSend_def open_send_def
      createNetworkRequest_def sizeof_SpikePayload_def)

subsection \<open>Text spike traces\<close>

lemma should_load_event_upd [simp]:
  "should_load_event (src\<lparr>spike_queue := q, events_loaded_count := n\<rparr>) = should_load_event src"
  by (simp add: should_load_event_def fun_eq_iff)

lemma line_event_upd [simp]:
  "line_event extraction (src\<lparr>spike_queue := q, events_loaded_count := n\<rparr>) = line_event extraction src"
  by (auto simp: line_event_def fun_eq_iff split: option.splits)

lemma map_filter_Cons:
  "List.map_filter f (x # xs) = (case f x of None \<Rightarrow> List.map_filter f xs
     | Some y \<Rightarrow> y # List.map_filter f xs)"
  by (simp add: List.map_filter_def split: option.splits)

lemma loadText_loop_unlimited:
  assumes "max_events src = 0"
  shows "spike_queue (loadText_loop extraction src c lines) =
           spike_queue src @ List.map_filter (line_event extraction src) lines"
  using assms
proof (induction lines arbitrary: src c)
  case Nil
  then show ?case by (simp add: List.map_filter_def)
next
  case (Cons line rest)
  show ?case
  proof (cases "line_event extraction src line")
    case None
    then show ?thesis using Cons
      by (auto simp: line_event_def map_filter_Cons split: option.splits if_splits)
  next
    case (Some e)
    then obtain nid ts where x: "line \<noteq> []" "hd line \<noteq> CHR ''#''" "extraction line = Some (nid, ts)"
      "should_load_event src nid" "e = \<lparr>sd_neuron_id = nid, sd_timestamp = ts\<rparr>"
      by (auto simp: line_event_def split: option.splits if_splits)
    have "spike_queue (loadText_loop extraction
             (src\<lparr>spike_queue := spike_queue src @ [e],
                  events_loaded_count := events_loaded_count src + 1\<rparr>) (c + 1) rest) =
          (spike_queue src @ [e]) @ List.map_filter (line_event extraction src) rest"
      using Cons.IH [of "src\<lparr>spike_queue := spike_queue src @ [e],
                  events_loaded_count := events_loaded_count src + 1\<rparr>" "c + 1"] Cons.prems
      by simp
    then show ?thesis using x Some Cons.prems by (simp add: map_filter_Cons)
  qed
qed

lemma loadText_loop_limited:
  assumes "max_events src \<noteq> 0" "c \<le> max_events src"
  shows "spike_queue (loadText_loop extraction src c lines) =
           spike_queue src @
             take (unat (max_events src) - unat c) (List.map_filter (line_event extraction src) lines)"
  using assms
proof (induction lines arbitrary: src c)
  case Nil
  then show ?case by (simp add: List.map_filter_def)
next
  case (Cons line rest)
  show ?case
  proof (cases "c < max_events src")
    case False
    then have "c = max_events src" using Cons.prems by simp
    then show ?thesis using Cons.prems(1) by simp
  next
    case lt: True
    show ?thesis
    proof (cases "line_event extraction src line")
      case None
      then show ?thesis using Cons lt
        by (auto simp: line_event_def map_filter_Cons split: option.splits if_splits)
    next
      case (Some e)
      then obtain nid ts where x: "line \<noteq> []" "hd line \<noteq> CHR ''#''" "extraction line = Some (nid, ts)"
        "should_load_event src nid" "e = \<lparr>sd_neuron_id = nid, sd_timestamp = ts\<rparr>"
        by (auto simp: line_event_def split: option.splits if_splits)
      have lt': "unat c < unat (max_events src)" using lt by (simp add: word_less_nat_alt)
      have "unat (max_events src) < 2 ^ 32" using unsigned_less [of "max_events src"] by simp
      then have "unat c + 1 < 2 ^ 32" using lt' by simp
      then have u: "unat (c + 1) = unat c + 1" by (simp add: unat_word_ariths)
      then have "c + 1 \<le> max_events src" using lt' by (simp add: word_le_nat_alt)
      with u have c1: "unat (c + 1) = unat c + 1" "c + 1 \<le> max_events src" by simp_all
      from lt' have t: "unat (max_events src) - unat c = Suc (unat (max_events src) - (unat c + 1))"
        by simp
      have "spike_queue (loadText_loop extraction
               (src\<lparr>spike_queue := spike_queue src @ [e],
                    events_loaded_count := events_loaded_count src + 1\<rparr>) (c + 1) rest) =
            (spike_queue src @ [e]) @
              take (unat (max_events src) - (unat c + 1)) (List.map_filter (line_event extraction src) rest)"
        using Cons.IH [of "src\<lparr>spike_queue := spike_queue src @ [e],
                    events_loaded_count := events_loaded_count src + 1\<rparr>" "c + 1"] Cons.prems c1
        by simp
      then show ?thesis using x Some lt by (simp add: map_filter_Cons t)
    qed
  qed
qed

lemma line_event_SomeD:
  "line_event extraction src line = Some e \<Longrightarrow>
     line \<noteq> [] \<and> hd line \<noteq> CHR ''#'' \<and>
     extraction line = Some (sd_neuron_id e, sd_timestamp e) \<and>
     should_load_event src (sd_neuron_id e)"
  by (auto simp: line_event_def split: option.splits if_splits)

lemma stored_events_origin:
  assumes "e \<in> set (stored_events extraction src lines)"
  shows "\<exists>line \<in> set lines. line_event extraction src line = Some e"
proof -
  have "e \<in> set (List.map_filter (line_event extraction src) lines)"
    using assms by (auto simp: stored_events_def dest: in_set_takeD split: if_splits)
  then show ?thesis by (auto simp: List.map_filter_def)
qed

lemma decimal_extract_samples:
  "decimal_extract ''3 100'' = Some (3, 100)"
  "decimal_extract ''7 5'' = Some (7, 5)"
  "decimal_extract ''bad line'' = None"
  "decimal_extract ''4 9'' = Some (4, 9)"
  "decimal_extract ''3 7'' = Some (3, 7)"
  by (simp_all add: decimal_extract_def read_unsigned_def is_digit_def Let_def)

text \<open>
  C8 as stated fails: with \<open>neuron_offset = 3\<close> and \<open>time_scale = 2\<close>, the record \<open>3 100\<close> is
  stored as neuron 3 at time 100, not as neuron 6 at time 200: the text loader applies
  neither the offset nor the scale.
\<close>

theorem text_loader_counterexample:
  "spike_queue (snd (loadTextFormat decimal_extract offset_source (Some [''3 100'']))) =
     [\<lparr>sd_neuron_id = 3, sd_timestamp = 100\<rparr>] \<and>
   (3 :: 32 word) + neuron_offset offset_source = 6 \<and>
   convertToSimTime offset_source 100 = 200"
  by (simp add: loadTextFormat_def decimal_extract_samples should_load_event_def
      offset_source_def convertToSimTime_def)

text \<open>
  C8, amended. For every record the text loader stores, the stored event has exactly the
  time stamp and the neuron id read from a line of the file (\<open>time_scale\<close> is not applied and
  \<open>neuron_offset\<close> is not added); a non-zero \<open>neuron_offset\<close> instead keeps only the records
  whose neuron id lies in \<open>[neuron_offset, neuron_offset + 2)\<close>. Empty lines, lines that
  start with \<open>#\<close> and lines the extraction fails on are skipped, and at most \<open>max_events\<close>
  events are stored when \<open>max_events\<close> is nonzero: the stored events are the first
  \<open>max_events\<close> line events, in file order.
\<close>

theorem loadTextFormat_stores:
  "loadTextFormat extraction src None = (False, src) \<and>
   fst (loadTextFormat extraction src (Some lines)) \<and>
   spike_queue (snd (loadTextFormat extraction src (Some lines))) =
     spike_queue src @ stored_events extraction src lines \<and>
   (max_events src \<noteq> 0 \<longrightarrow>
      length (stored_events extraction src lines) \<le> unat (max_events src)) \<and>
   (\<forall>e \<in> set (stored_events extraction src lines).
      \<exists>line \<in> set lines.
        line \<noteq> [] \<and> hd line \<noteq> CHR ''#'' \<and>
        extraction line = Some (sd_neuron_id e, sd_timestamp e) \<and>
        (neuron_offset src \<noteq> 0 \<longrightarrow>
           neuron_offset src \<le> sd_neuron_id e \<and> sd_neuron_id e < neuron_offset src + 2))"
proof -
  have q: "spike_queue (snd (loadTextFormat extraction src (Some lines))) =
     spike_queue src @ stored_events extraction src lines"
  proof (cases "max_events src = 0")
    case True
    then show ?thesis
      by (simp add: loadTextFormat_def stored_events_def loadText_loop_unlimited)
  next
    case False
    then show ?thesis
      using loadText_loop_limited [of src 0 extraction lines]
      by (simp add: loadTextFormat_def stored_events_def)
  qed
  have o: "\<exists>line \<in> set lines.
        line \<noteq> [] \<and> hd line \<noteq> CHR ''#'' \<and>
        extraction line = Some (sd_neuron_id e, sd_timestamp e) \<and>
        (neuron_offset src \<noteq> 0 \<longrightarrow>
           neuron_offset src \<le> sd_neuron_id e \<and> sd_neuron_id e < neuron_offset src + 2)"
    if mem: "e \<in> set (stored_events extraction src lines)" for e
  proof -
    obtain line where l: "line \<in> set lines" "line_event extraction src line = Some e"
      using stored_events_origin [OF mem] by blast
    from line_event_SomeD [OF l(2)] show ?thesis
      using l(1) by (auto simp: should_load_event_def Let_def split: if_splits)
  qed
  show ?thesis using q o by (simp add: loadTextFormat_def stored_events_def)
qed

theorem loadTextFormat_stores_witness:
  "spike_queue (snd (loadTextFormat decimal_extract offset_source (Some sample_trace))) =
     [\<lparr>sd_neuron_id = 3, sd_timestamp = 100\<rparr>, \<lparr>sd_neuron_id = 4, sd_timestamp = 9\<rparr>,
      \<lparr>sd_neuron_id = 3, sd_timestamp = 7\<rparr>] \<and>
   spike_queue (snd (loadTextFormat decimal_extract (offset_source\<lparr>max_events := 2\<rparr>)
       (Some sample_trace))) =
     [\<lparr>sd_neuron_id = 3, sd_timestamp = 100\<rparr>, \<lparr>sd_neuron_id = 4, sd_timestamp = 9\<rparr>]"
  using loadTextFormat_stores [of decimal_extract offset_source sample_trace]
        loadTextFormat_stores [of decimal_extract "offset_source\<lparr>max_events := 2\<rparr>" sample_trace]
  by (simp add: stored_events_def sample_trace_def map_filter_Cons line_event_def
      decimal_extract_samples should_load_event_def offset_source_def List.map_filter_def)

subsection \<open>Leak on a tick\<close>

lemma prefix_update:
  assumes "n < length xs"
  shows "(map g (take n xs) @ drop n xs)[n := g (xs ! n)] = map g (take (Suc n) xs) @ drop (Suc n) xs"
proof -
  have "drop n xs = xs ! n # drop (Suc n) xs" using assms by (simp add: Cons_nth_drop_Suc)
  moreover have "length (map g (take n xs)) = n" using assms by simp
  ultimately have "(map g (take n xs) @ drop n xs)[n := g (xs ! n)]
      = map g (take n xs) @ (g (xs ! n) # drop (Suc n) xs)"
    by (metis list_update_length)
  then show ?thesis using assms by (simp add: take_Suc_conv_app_nth)
qed

lemma prefix_nth:
  assumes "n < length xs"
  shows "(map g (take n xs) @ drop n xs) ! n = xs ! n"
  using assms by (simp add: nth_append)

lemma tick_neuron_upd [simp]: "tick_neuron (pe\<lparr>neurons := xs\<rparr>) = tick_neuron pe"
  by (simp add: tick_neuron_def fun_eq_iff)

lemma clockTick_neuron_eq:
  "clockTick_neuron pe i = pe\<lparr>neurons := (neurons pe)[i := tick_neuron pe (neurons pe ! i)]\<rparr>"
  by (simp add: clockTick_neuron_def applyLeak_def update_neuron_def tick_neuron_def)

lemma clockTick_prefix:
  "n \<le> length (neurons pe) \<Longrightarrow>
     foldl clockTick_neuron pe [0 ..< n] =
       pe\<lparr>neurons := map (tick_neuron pe) (take n (neurons pe)) @ drop n (neurons pe)\<rparr>"
proof (induction n)
  case 0
  then show ?case by simp
next
  case (Suc n)
  then have n: "n < length (neurons pe)" by simp
  show ?case using Suc.IH n
    by (simp add: clockTick_neuron_eq prefix_update prefix_nth)
qed

lemma clockTick_neurons_eq:
  assumes "length (neurons pe) = unat (num_neurons pe)"
  shows "clockTick_neurons pe = pe\<lparr>neurons := map (tick_neuron pe) (neurons pe)\<rparr>"
  using clockTick_prefix [of "unat (num_neurons pe)" pe] assms
  by (simp add: clockTick_neurons_def)

lemma core_tick_neuron_upd [simp]:
  "core_tick_neuron (c\<lparr>neuron_states := xs\<rparr>) = core_tick_neuron c"
  by (simp add: core_tick_neuron_def fun_eq_iff)

lemma updateNeuronStates_step_eq:
  assumes "i < unat (core_num_neurons c)"
  shows "updateNeuronStates_step c i =
     c\<lparr>neuron_states := (neuron_states c)[i := core_tick_neuron c (neuron_states c ! i)]\<rparr>"
proof -
  have "unat (core_num_neurons c) < 2 ^ 32"
    using unsigned_less [of "core_num_neurons c", where 'a = nat] by simp
  then have "i < 2 ^ 32" using assms by simp
  then have u: "unat (of_nat i :: 32 word) = i" by (simp add: unat_of_nat)
  then have "(of_nat i :: 32 word) < core_num_neurons c"
    using assms by (simp add: word_less_nat_alt)
  then show ?thesis
    by (simp add: updateNeuronStates_step_def core_applyLeak_def update_state_def
        core_tick_neuron_def u not_le [symmetric])
qed

lemma updateNeuronStates_prefix:
  "n \<le> length (neuron_states c) \<Longrightarrow> n \<le> unat (core_num_neurons c) \<Longrightarrow>
     foldl updateNeuronStates_step c [0 ..< n] =
       c\<lparr>neuron_states := map (core_tick_neuron c) (take n (neuron_states c)) @
                              drop n (neuron_states c)\<rparr>"
proof (induction n)
  case 0
  then show ?case by simp
next
  case (Suc n)
  then have n: "n < length (neuron_states c)" "n < unat (core_num_neurons c)" by simp_all
  show ?case using Suc n
    by (simp add: updateNeuronStates_step_eq prefix_update prefix_nth)
qed

lemma updateNeuronStates_eq:
  assumes "length (neuron_states c) = unat (core_num_neurons c)"
  shows "updateNeuronStates c = c\<lparr>neuron_states := map (core_tick_neuron c) (neuron_states c)\<rparr>"
  using updateNeuronStates_prefix [of "unat (core_num_neurons c)" c] assms
  by (simp add: updateNeuronStates_def)

text \<open>
  C6 as stated fails in the core of the multi-core tile: a neuron below rest is not leaked.
  With \<open>v_rest = 0\<close> and \<open>tau_mem = 20\<close>, a non-refractory neuron at \<open>v_mem = -1\<close> stays at
  \<open>-1\<close> over a tick, while the formula of the claim gives \<open>- exp (-1/20)\<close>.
\<close>

theorem core_leak_counterexample:
  "refractory_timer (neuron_states sample_core ! 1) = 0 \<and>
   v_mem (neuron_states (updateNeuronStates sample_core) ! 1) = - 1 \<and>
   core_v_rest sample_core +
     (v_mem (neuron_states sample_core ! 1) - core_v_rest sample_core) *
       exp (- 1 / core_tau_mem sample_core) \<noteq> - 1"
proof -
  have "length (neuron_states sample_core) = unat (core_num_neurons sample_core)"
    by (simp add: sample_core_def)
  then have "neuron_states (updateNeuronStates sample_core) ! 1 =
      core_tick_neuron sample_core (neuron_states sample_core ! 1)"
    by (simp add: updateNeuronStates_eq) (simp add: sample_core_def)
  moreover have "exp (- 1 / 20 :: real) \<noteq> 1" by simp
  ultimately show ?thesis by (simp add: sample_core_def core_tick_neuron_def)
qed

text \<open>
  C6, amended. On every tick of \<open>SnnPE\<close> (leak factor as computed by \<open>setup\<close>), every
  neuron whose refractory timer is 0 gets \<open>v_mem := v_rest + (v_mem - v_rest) * exp (-1 / tau_mem)\<close>,
  above or below rest alike. In the core of the multi-core tile the same formula is applied
  to a non-refractory neuron only when \<open>v_mem > v_rest\<close>; at or below rest its potential is
  left as it is. In both, a refractory neuron is not leaked: its timer goes down by one.
\<close>

theorem leak_on_tick:
  assumes "length (neurons pe) = unat (num_neurons pe)" and "i < unat (num_neurons pe)"
    and "tau_mem pe > 0" and "leak_factor pe = exp (- 1 / tau_mem pe)"
    and "length (neuron_states c) = unat (core_num_neurons c)" and "j < unat (core_num_neurons c)"
    and "core_tau_mem c > 0"
  shows "(refractory_timer (neurons pe ! i) = 0 \<longrightarrow>
            neurons (clockTick_neurons pe) ! i =
              (neurons pe ! i)\<lparr>v_mem := v_rest pe +
                 (v_mem (neurons pe ! i) - v_rest pe) * exp (- 1 / tau_mem pe)\<rparr>) \<and>
         (refractory_timer (neurons pe ! i) \<noteq> 0 \<longrightarrow>
            neurons (clockTick_neurons pe) ! i =
              (neurons pe ! i)\<lparr>refractory_timer := refractory_timer (neurons pe ! i) - 1\<rparr>) \<and>
         (refractory_timer (neuron_states c ! j) = 0 \<and>
          v_mem (neuron_states c ! j) > core_v_rest c \<longrightarrow>
            neuron_states (updateNeuronStates c) ! j =
              (neuron_states c ! j)\<lparr>v_mem := core_v_rest c +
                 (v_mem (neuron_states c ! j) - core_v_rest c) * exp (- 1 / core_tau_mem c)\<rparr>) \<and>
         (refractory_timer (neuron_states c ! j) = 0 \<and>
          v_mem (neuron_states c ! j) \<le> core_v_rest c \<longrightarrow>
            neuron_states (updateNeuronStates c) ! j = neuron_states c ! j) \<and>
         (refractory_timer (neuron_states c ! j) \<noteq> 0 \<longrightarrow>
            neuron_states (updateNeuronStates c) ! j =
              (neuron_states c ! j)\<lparr>refractory_timer := refractory_timer (neuron_states c ! j) - 1\<rparr>)"
proof -
  have pe: "neurons (clockTick_neurons pe) ! i = tick_neuron pe (neurons pe ! i)"
    using assms(1,2) by (simp add: clockTick_neurons_eq)
  have c: "neuron_states (updateNeuronStates c) ! j = core_tick_neuron c (neuron_states c ! j)"
    using assms(5,6) by (simp add: updateNeuronStates_eq)
  show ?thesis unfolding pe c using assms(4)
    by (simp add: tick_neuron_def core_tick_neuron_def word_greater_zero_iff)
qed

theorem leak_on_tick_witness:
  "neurons (clockTick_neurons (setup_leak_factor sample_pe)) ! 0 =
     \<lparr>v_mem = 1 / 2 * exp (- 1 / 20), refractory_timer = 0, last_spike_time = 0\<rparr> \<and>
   neurons (clockTick_neurons (setup_leak_factor sample_pe)) ! 1 =
     \<lparr>v_mem = - 1, refractory_timer = 1, last_spike_time = 0\<rparr> \<and>
   neuron_states (updateNeuronStates sample_core) ! 0 =
     \<lparr>v_mem = 1 / 2 * exp (- 1 / 20), refractory_timer = 0, last_spike_time = 0\<rparr> \<and>
   neuron_states (updateNeuronStates sample_core) ! 1 =
     \<lparr>v_mem = - 1, refractory_timer = 0, last_spike_time = 0\<rparr> \<and>
   neuron_states (updateNeuronStates sample_core) ! 2 =
     \<lparr>v_mem = 3, refractory_timer = 1, last_spike_time = 0\<rparr>"
  using leak_on_tick [of "setup_leak_factor sample_pe" 0 sample_core 0]
        leak_on_tick [of "setup_leak_factor sample_pe" 1 sample_core 1]
        leak_on_tick [of "setup_leak_factor sample_pe" 1 sample_core 2]
  by (simp add: setup_leak_factor_def sample_pe_def sample_core_def)

subsection \<open>Firing\<close>

lemma update_neuron_fields [simp]:
  "neurons_fired_count (update_neuron pe i f) = neurons_fired_count pe"
  "csr_col_indices (update_neuron pe i f) = csr_col_indices pe"
  "csr_weights (update_neuron pe i f) = csr_weights pe"
  "neurons (update_neuron pe i f) = (neurons pe)[i := f (neurons pe ! i)]"
  by (simp_all add: update_neuron_def)

lemma send_cross_core_fields [simp]:
  "neurons_fired_count (send_cross_core pe idx g w) = neurons_fired_count pe"
  "neurons (send_cross_core pe idx g w) = neurons pe"
  by (simp_all add: send_cross_core_def Let_def)

lemma row_loop_mono:
  assumes "fired_mono recurse"
  shows "neurons_fired_count pe \<le> neurons_fired_count (row_loop recurse idx pe js)"
proof (induction js arbitrary: pe)
  case Nil
  then show ?case by simp
next
  case (Cons i rest)
  have step: "neurons_fired_count pe \<le> neurons_fired_count (row_loop recurse idx
                 (recurse ((update_neuron pe k f)\<lparr>synaptic_ops_count := m\<rparr>) t) rest)" for k f m t
  proof -
    have "neurons_fired_count pe \<le>
        neurons_fired_count (recurse ((update_neuron pe k f)\<lparr>synaptic_ops_count := m\<rparr>) t)"
      using assms [unfolded fired_mono_def, rule_format,
          of "(update_neuron pe k f)\<lparr>synaptic_ops_count := m\<rparr>" t] by simp
    also have "\<dots> \<le> neurons_fired_count (row_loop recurse idx
                 (recurse ((update_neuron pe k f)\<lparr>synaptic_ops_count := m\<rparr>) t) rest)"
      by (rule Cons.IH)
    finally show ?thesis .
  qed
  have cross: "neurons_fired_count pe \<le> neurons_fired_count (row_loop recurse idx
                 (send_cross_core pe idx g w) rest)" for g w
    using Cons.IH [of "send_cross_core pe idx g w"] by simp
  show ?case using Cons.IH [of pe] step cross by (simp add: Let_def)
qed

lemma propagate_mono:
  assumes "fired_mono recurse"
  shows "neurons_fired_count pe \<le> neurons_fired_count (propagate recurse pe idx)"
  using row_loop_mono [OF assms] by (simp add: propagate_def Let_def)

lemma fire_reset_count [simp]:
  "neurons_fired_count (fire_reset pe idx) = neurons_fired_count pe + 1"
  by (simp add: fire_reset_def)

lemma left_mono: "fired_mono (checkAndFireSpike_left k)"
proof (induction k)
  case 0
  then show ?case by (simp add: fired_mono_def)
next
  case (Suc k)
  show ?case unfolding fired_mono_def
  proof (intro allI)
    fix pe t
    show "neurons_fired_count pe \<le> neurons_fired_count (checkAndFireSpike_left (Suc k) pe t)"
      using propagate_mono [OF Suc, of "fire_reset pe t" t] by simp
  qed
qed

lemma left_fires:
  assumes "v_mem (neurons pe ! unat idx) \<ge> v_thresh pe"
  shows "neurons_fired_count pe < neurons_fired_count (checkAndFireSpike_left (Suc k) pe idx)"
  using propagate_mono [OF left_mono [of k], of "fire_reset pe idx" idx] assms by simp

lemma left_idle:
  assumes "\<not> (v_mem (neurons pe ! unat idx) \<ge> v_thresh pe \<and> k > 0)"
  shows "checkAndFireSpike_left k pe idx = pe"
  using assms by (cases k) auto

lemma row_loop_keeps:
  assumes "keeps_refractory recurse" and "refractory_timer (neurons pe ! j) \<noteq> 0"
  shows "neurons (row_loop recurse idx pe js) ! j = neurons pe ! j"
  using assms(2)
proof (induction js arbitrary: pe)
  case Nil
  then show ?case by simp
next
  case (Cons i rest)
  have step: "neurons (row_loop recurse idx
                 (recurse ((update_neuron pe (unat t) f)\<lparr>synaptic_ops_count := m\<rparr>) t) rest) ! j
              = neurons pe ! j"
    if "refractory_timer (neurons pe ! unat t) = 0" for t f m
  proof -
    have ne: "unat t \<noteq> j" using that Cons.prems by auto
    let ?pe1 = "(update_neuron pe (unat t) f)\<lparr>synaptic_ops_count := m\<rparr>"
    have a: "neurons ?pe1 ! j = neurons pe ! j" using ne by simp
    have b: "neurons (recurse ?pe1 t) ! j = neurons ?pe1 ! j"
      using assms(1) [unfolded keeps_refractory_def, rule_format, of t j ?pe1] ne a Cons.prems
      by simp
    have "neurons (row_loop recurse idx (recurse ?pe1 t) rest) ! j = neurons (recurse ?pe1 t) ! j"
      using Cons.IH [of "recurse ?pe1 t"] a b Cons.prems by simp
    then show ?thesis using a b by simp
  qed
  have cross: "neurons (row_loop recurse idx (send_cross_core pe idx g w) rest) ! j = neurons pe ! j"
    for g w
    using Cons.IH [of "send_cross_core pe idx g w"] Cons.prems by simp
  show ?case using Cons.IH [of pe] Cons.prems step cross by (simp add: Let_def)
qed

lemma propagate_keeps:
  assumes "keeps_refractory recurse" and "refractory_timer (neurons pe ! j) \<noteq> 0"
  shows "neurons (propagate recurse pe idx) ! j = neurons pe ! j"
  using row_loop_keeps [OF assms] by (simp add: propagate_def Let_def)

lemma fire_reset_neurons [simp]:
  "neurons (fire_reset pe idx) =
     (neurons pe)[unat idx := (neurons pe ! unat idx)\<lparr>v_mem := v_reset pe, refractory_timer := t_ref pe\<rparr>]"
  by (simp add: fire_reset_def)

lemma left_keeps: "keeps_refractory (checkAndFireSpike_left k)"
proof (induction k)
  case 0
  then show ?case by (simp add: keeps_refractory_def)
next
  case (Suc k)
  show ?case unfolding keeps_refractory_def
  proof (intro allI impI)
    fix pe :: SnnPE and t :: "32 word" and j :: nat
    assume a: "unat t \<noteq> j \<and> refractory_timer (neurons pe ! j) \<noteq> 0"
    then have "refractory_timer (neurons (fire_reset pe t) ! j) \<noteq> 0" by simp
    from propagate_keeps [OF Suc this, of t]
    show "neurons (checkAndFireSpike_left (Suc k) pe t) ! j = neurons pe ! j"
      using a by simp
  qed
qed

lemma left_after_firing:
  assumes "v_mem (neurons pe ! unat idx) \<ge> v_thresh pe" and "unat idx < length (neurons pe)"
    and "t_ref pe \<noteq> 0"
  shows "neurons (checkAndFireSpike_left (Suc k) pe idx) ! unat idx =
           (neurons pe ! unat idx)\<lparr>v_mem := v_reset pe, refractory_timer := t_ref pe\<rparr>"
proof -
  have "refractory_timer (neurons (fire_reset pe idx) ! unat idx) \<noteq> 0"
    using assms(2,3) by simp
  from propagate_keeps [OF left_keeps this, of k idx] show ?thesis
    using assms(1,2) by simp
qed

lemma depth_unfold:
  "d < MAX_RECURSION_DEPTH \<Longrightarrow>
     checkAndFireSpike_depth d pe idx =
       (if v_mem (neurons pe ! unat idx) \<ge> v_thresh pe
        then propagate (checkAndFireSpike_depth (Suc d)) (fire_reset pe idx) idx else pe)"
proof -
  assume d: "d < MAX_RECURSION_DEPTH"
  then have "MAX_RECURSION_DEPTH - d = Suc (MAX_RECURSION_DEPTH - Suc d)" by simp
  moreover have "checkAndFireSpike_depth (Suc d) = checkAndFireSpike_left (MAX_RECURSION_DEPTH - Suc d)"
    by (simp add: checkAndFireSpike_depth_def fun_eq_iff)
  ultimately show ?thesis by (simp add: checkAndFireSpike_depth_def)
qed

text \<open>
  C1 as stated fails in \<open>SnnPE\<close>: the function returns at once, without firing, when ten
  firings are nested around the call. In the chain of eleven neurons, the call on neuron 0
  fires neurons 0 to 9; neuron 10 receives its input at depth 10 and is left at the
  threshold, not refractory and not fired.
\<close>

theorem chain_counterexample:
  "v_mem (neurons (checkAndFireSpike chain_pe 0) ! 10) = 1 \<and>
   refractory_timer (neurons (checkAndFireSpike chain_pe 0) ! 10) = 0 \<and>
   v_thresh (checkAndFireSpike chain_pe 0) = 1 \<and>
   v_reset (checkAndFireSpike chain_pe 0) = 0 \<and>
   neurons_fired_count (checkAndFireSpike chain_pe 0) = 10"
  by code_simp

text \<open>
  The handler \<open>SnnPE::processLocalSpike\<close> integrates and calls \<open>checkAndFireSpike\<close> without the
  test of the refractory timer that the other callers make: a refractory neuron fires.
\<close>

lemma processLocalSpike_fires_refractory:
  "refractory_timer (neurons sample_pe ! 1) = 2 \<and>
   neurons_fired_count
     (processLocalSpike sample_pe (default_SpikeEvent\<lparr>dest_neuron := 1, weight := 3\<rparr>)) = 1"
  by code_simp

text \<open>
  C1, amended. In the core of the multi-core tile, \<open>checkAndFireSpike\<close> on a valid neuron
  index fires the neuron if and only if \<open>v_mem \<ge> v_thresh\<close> and its refractory timer is 0,
  and otherwise changes nothing. In \<open>SnnPE\<close>, \<open>checkAndFireSpike\<close> on a neuron that is not
  refractory fires it if and only if \<open>v_mem \<ge> v_thresh\<close> and fewer than ten firings are nested
  around the call (\<open>recursion_depth < 10\<close>), and otherwise changes nothing. In both,
  immediately after the firing statements \<open>v_mem = v_reset\<close> and \<open>refractory_timer = t_ref\<close>;
  in \<open>SnnPE\<close> this still holds when the call returns if \<open>t_ref\<close> is not 0.
\<close>

theorem firing_law:
  assumes "unat idx < length (neurons pe)"
    and "refractory_timer (neurons pe ! unat idx) = 0"
    and "length (neuron_states c) = unat (core_num_neurons c)"
    and "cidx < core_num_neurons c"
  shows "((neurons_fired_count pe < neurons_fired_count (checkAndFireSpike_depth d pe idx)) =
            (v_mem (neurons pe ! unat idx) \<ge> v_thresh pe \<and> d < MAX_RECURSION_DEPTH)) \<and>
         (\<not> (v_mem (neurons pe ! unat idx) \<ge> v_thresh pe \<and> d < MAX_RECURSION_DEPTH) \<longrightarrow>
            checkAndFireSpike_depth d pe idx = pe) \<and>
         (v_mem (neurons pe ! unat idx) \<ge> v_thresh pe \<and> d < MAX_RECURSION_DEPTH \<longrightarrow>
            checkAndFireSpike_depth d pe idx =
              propagate (checkAndFireSpike_depth (Suc d)) (fire_reset pe idx) idx \<and>
            neurons (fire_reset pe idx) ! unat idx =
              (neurons pe ! unat idx)\<lparr>v_mem := v_reset pe, refractory_timer := t_ref pe\<rparr> \<and>
            (t_ref pe \<noteq> 0 \<longrightarrow>
               neurons (checkAndFireSpike_depth d pe idx) ! unat idx =
                 (neurons pe ! unat idx)\<lparr>v_mem := v_reset pe, refractory_timer := t_ref pe\<rparr>)) \<and>
         ((count_neurons_fired c < count_neurons_fired (core_checkAndFireSpike c cidx)) =
            (v_mem (neuron_states c ! unat cidx) \<ge> core_v_thresh c \<and>
             refractory_timer (neuron_states c ! unat cidx) = 0)) \<and>
         (\<not> (v_mem (neuron_states c ! unat cidx) \<ge> core_v_thresh c \<and>
             refractory_timer (neuron_states c ! unat cidx) = 0) \<longrightarrow>
            core_checkAndFireSpike c cidx = c) \<and>
         (v_mem (neuron_states c ! unat cidx) \<ge> core_v_thresh c \<and>
          refractory_timer (neuron_states c ! unat cidx) = 0 \<longrightarrow>
            neuron_states (core_checkAndFireSpike c cidx) ! unat cidx =
              (neuron_states c ! unat cidx)\<lparr>v_mem := core_v_reset c,
                 refractory_timer := core_t_ref c, last_spike_time := core_total_cycles c\<rparr>)"
proof -
  let ?fire = "v_mem (neurons pe ! unat idx) \<ge> v_thresh pe \<and> d < MAX_RECURSION_DEPTH"
  have idle: "checkAndFireSpike_depth d pe idx = pe" if "\<not> ?fire"
    using that by (intro left_idle [of pe idx "MAX_RECURSION_DEPTH - d",
          folded checkAndFireSpike_depth_def]) auto
  have fires: "neurons_fired_count pe < neurons_fired_count (checkAndFireSpike_depth d pe idx)"
    and eq: "checkAndFireSpike_depth d pe idx =
              propagate (checkAndFireSpike_depth (Suc d)) (fire_reset pe idx) idx"
    and after: "t_ref pe \<noteq> 0 \<Longrightarrow> neurons (checkAndFireSpike_depth d pe idx) ! unat idx =
                 (neurons pe ! unat idx)\<lparr>v_mem := v_reset pe, refractory_timer := t_ref pe\<rparr>"
    if f: "?fire"
  proof -
    from f have "d < MAX_RECURSION_DEPTH" by simp
    then have s: "MAX_RECURSION_DEPTH - d = Suc (MAX_RECURSION_DEPTH - Suc d)" by arith
    show "neurons_fired_count pe < neurons_fired_count (checkAndFireSpike_depth d pe idx)"
      unfolding checkAndFireSpike_depth_def s using f by (intro left_fires) simp
    show "checkAndFireSpike_depth d pe idx =
              propagate (checkAndFireSpike_depth (Suc d)) (fire_reset pe idx) idx"
      using f by (simp add: depth_unfold)
    show "neurons (checkAndFireSpike_depth d pe idx) ! unat idx =
                 (neurons pe ! unat idx)\<lparr>v_mem := v_reset pe, refractory_timer := t_ref pe\<rparr>"
      if "t_ref pe \<noteq> 0"
      unfolding checkAndFireSpike_depth_def s using f assms(1) that
      by (intro left_after_firing) simp_all
  qed
  have reset: "neurons (fire_reset pe idx) ! unat idx =
              (neurons pe ! unat idx)\<lparr>v_mem := v_reset pe, refractory_timer := t_ref pe\<rparr>"
    using assms(1) by simp
  have pe_part: "((neurons_fired_count pe < neurons_fired_count (checkAndFireSpike_depth d pe idx)) =
            ?fire)"
    using idle fires by fastforce
  have lt: "unat cidx < length (neuron_states c)" "\<not> core_num_neurons c \<le> cidx"
    using assms(3,4) by (simp_all add: word_less_nat_alt word_le_nat_alt)
  let ?cfire = "v_mem (neuron_states c ! unat cidx) \<ge> core_v_thresh c \<and>
             refractory_timer (neuron_states c ! unat cidx) = 0"
  have c_idle: "core_checkAndFireSpike c cidx = c" if "\<not> ?cfire"
    using that by (auto simp: core_checkAndFireSpike_def)
  have c_fire: "count_neurons_fired c < count_neurons_fired (core_checkAndFireSpike c cidx)"
    and c_after: "neuron_states (core_checkAndFireSpike c cidx) ! unat cidx =
              (neuron_states c ! unat cidx)\<lparr>v_mem := core_v_reset c,
                 refractory_timer := core_t_ref c, last_spike_time := core_total_cycles c\<rparr>"
    if "?cfire"
    using that lt
    by (auto simp: core_checkAndFireSpike_def update_state_def Let_def split: option.splits)
  have c_part: "((count_neurons_fired c < count_neurons_fired (core_checkAndFireSpike c cidx)) =
            ?cfire)"
    using c_idle c_fire by fastforce
  show ?thesis using pe_part idle eq reset after c_part c_idle c_after by blast
qed

theorem firing_law_witness:
  "neurons_fired_count chain_pe < neurons_fired_count (checkAndFireSpike_depth 0 chain_pe 0) \<and>
   neurons (checkAndFireSpike_depth 0 chain_pe 0) ! 0 =
     \<lparr>v_mem = 0, refractory_timer = 2, last_spike_time = 0\<rparr> \<and>
   checkAndFireSpike_depth 10 chain_pe 0 = chain_pe \<and>
   core_checkAndFireSpike sample_core 2 = sample_core \<and>
   neuron_states (core_checkAndFireSpike (sample_core\<lparr>core_v_thresh := 1 / 2\<rparr>) 0) ! 0 =
     \<lparr>v_mem = 0, refractory_timer = 2, last_spike_time = 7\<rparr>"
proof -
  let ?c = "sample_core\<lparr>core_v_thresh := 1 / 2\<rparr>"
  have h1: "unat (0 :: 32 word) < length (neurons chain_pe)"
    and h2: "refractory_timer (neurons chain_pe ! unat (0 :: 32 word)) = 0"
    and f: "v_mem (neurons chain_pe ! unat (0 :: 32 word)) \<ge> v_thresh chain_pe"
    and t: "t_ref chain_pe \<noteq> 0"
    and e: "(neurons chain_pe ! unat (0 :: 32 word))
              \<lparr>v_mem := v_reset chain_pe, refractory_timer := t_ref chain_pe\<rparr> =
            \<lparr>v_mem = 0, refractory_timer = 2, last_spike_time = 0\<rparr>"
    by (simp_all add: chain_pe_def)
  have h3: "length (neuron_states sample_core) = unat (core_num_neurons sample_core)"
    and h4: "(2 :: 32 word) < core_num_neurons sample_core"
    and g: "refractory_timer (neuron_states sample_core ! unat (2 :: 32 word)) \<noteq> 0"
    by (simp_all add: sample_core_def)
  have h5: "length (neuron_states ?c) = unat (core_num_neurons ?c)"
    and h6: "(0 :: 32 word) < core_num_neurons ?c"
    and k: "v_mem (neuron_states ?c ! unat (0 :: 32 word)) \<ge> core_v_thresh ?c"
           "refractory_timer (neuron_states ?c ! unat (0 :: 32 word)) = 0"
    and e': "(neuron_states ?c ! unat (0 :: 32 word))\<lparr>v_mem := core_v_reset ?c,
                 refractory_timer := core_t_ref ?c, last_spike_time := core_total_cycles ?c\<rparr> =
             \<lparr>v_mem = 0, refractory_timer = 2, last_spike_time = 7\<rparr>"
    by (simp_all add: sample_core_def)
  have m: "(0 :: nat) < MAX_RECURSION_DEPTH" "\<not> (10 :: nat) < MAX_RECURSION_DEPTH"
    by (simp_all add: MAX_RECURSION_DEPTH_def)
  note A = firing_law [OF h1 h2 h3 h4, of 0]
  note B = firing_law [OF h1 h2 h5 h6, of 10]
  have a1: "neurons_fired_count chain_pe < neurons_fired_count (checkAndFireSpike_depth 0 chain_pe 0)"
    using A f m(1) by blast
  have "neurons (checkAndFireSpike_depth 0 chain_pe 0) ! unat (0 :: 32 word) =
          (neurons chain_pe ! unat (0 :: 32 word))
              \<lparr>v_mem := v_reset chain_pe, refractory_timer := t_ref chain_pe\<rparr>"
    using A f m(1) t by blast
  then have a2: "neurons (checkAndFireSpike_depth 0 chain_pe 0) ! 0 =
     \<lparr>v_mem = 0, refractory_timer = 2, last_spike_time = 0\<rparr>"
    unfolding e by simp
  have a3: "checkAndFireSpike_depth 10 chain_pe 0 = chain_pe"
    using B m(2) by blast
  have a4: "core_checkAndFireSpike sample_core 2 = sample_core"
    using A g by blast
  have "neuron_states (core_checkAndFireSpike ?c 0) ! unat (0 :: 32 word) =
      (neuron_states ?c ! unat (0 :: 32 word))\<lparr>v_mem := core_v_reset ?c,
                 refractory_timer := core_t_ref ?c, last_spike_time := core_total_cycles ?c\<rparr>"
    using B k by blast
  then have a5: "neuron_states (core_checkAndFireSpike ?c 0) ! 0 =
     \<lparr>v_mem = 0, refractory_timer = 2, last_spike_time = 7\<rparr>"
    unfolding e' by simp
  show ?thesis using a1 a2 a3 a4 a5 by blast
qed

end
